theory Spec2Isabelle
  imports Main
begin

section \<open>Data model of \<^verbatim>\<open>crewai/crew.py\<close>\<close>

text \<open>
  Tasks and agents are Python objects that the crew, its tasks and its task contexts
  share by reference, and that a run mutates in place (a task's tools and result slot, an
  agent's tools).  They live in two stores, addressed by object identity (\<open>ref\<close>, what
  Python's \<^verbatim>\<open>id()\<close> returns); the crew holds references only.

  \<^verbatim>\<open>Task\<close>, \<^verbatim>\<open>BaseAgent\<close> and \<^verbatim>\<open>TaskOutput\<close> are classes defined outside
  \<^verbatim>\<open>crew.py\<close>; the records below carry the fields that \<^verbatim>\<open>crew.py\<close> reads or writes.
\<close>

type_synonym ref = nat

type_synonym inputs = "(string \<times> string) list"

datatype process = sequential | hierarchical

datatype error =
    PydanticCustomError string string
  | ValueError string
  | IndexError
  | AttributeError
  | ValidationError string
  | Exception string
  | AgentError string

text \<open>
  \<open>PydanticCustomError\<close> carries the error type and the message, \<open>ValueError\<close> and
  \<open>Exception\<close> the message.  \<open>IndexError\<close> is what \<^verbatim>\<open>xs[0]\<close> raises on an empty
  list, \<open>AttributeError\<close> what reading a missing attribute raises, \<open>ValidationError\<close>
  what pydantic raises for a field value it cannot build.  \<open>AgentError\<close> stands for
  whatever an agent invocation raises (\<^verbatim>\<open>task.execute_sync\<close>,
  \<^verbatim>\<open>future.result()\<close>).
\<close>

datatype tool = DelegateTo ref | Tool string

record usage =
  total_tokens :: int
  prompt_tokens :: int
  completion_tokens :: int
  successful_requests :: int

record agent =
  role :: string
  allow_delegation :: bool
  allow_code_execution :: bool
  code_execution_tools :: "tool list"
  tools :: "tool list"
  token_process :: "usage option"

text \<open>
  \<open>code_execution_tools\<close> is what \<^verbatim>\<open>agent.get_code_execution_tools()\<close> returns.
  \<open>token_process\<close> is the summary \<^verbatim>\<open>agent._token_process.get_summary()\<close> returns;
  \<open>None\<close> is an agent without the attribute (\<^verbatim>\<open>hasattr\<close> is false).

  Modelled from the spec: \<^verbatim>\<open>TaskOutput\<close> is not part of the sources.  The record below
  has the fields of the spec's task result that \<^verbatim>\<open>crew.py\<close> passes to its constructor
  and reads back: the description, the raw text, the typed and the dict-shaped output, the
  format tag and the role of the producing agent.  Its \<^verbatim>\<open>summary\<close>, which
  \<^verbatim>\<open>crew.py\<close> never sets and only copies into a log entry, is left out.
\<close>

record task_output =
  o_description :: string
  raw :: string
  pydantic :: "string option"
  json_dict :: "inputs option"
  output_format :: string
  o_agent :: string

record task =
  task_id :: string
  description :: string
  expected_output :: string
  agent :: "ref option"
  task_context :: "ref list"
  async_execution :: bool
  task_tools :: "tool list"
  t_output :: "task_output option"

text \<open>
  \<open>task_context\<close> is \<^verbatim>\<open>task.context\<close>: the referenced task objects, in order.  The
  code only ever tests it for truth (\<^verbatim>\<open>if task.context\<close>) before iterating, so \<open>[]\<close>
  stands for both \<^verbatim>\<open>None\<close> and the empty list.  \<open>t_output\<close> is \<^verbatim>\<open>task.output\<close>,
  the result slot.
\<close>

record log_entry =
  log_task_id :: string
  log_expected_output :: string
  log_output :: task_output
  task_index :: nat
  log_inputs :: "inputs option"
  was_replayed :: bool

text \<open>
  One entry of the checkpoint log as \<^verbatim>\<open>_store_execution_log\<close> builds it, without the
  wall-clock \<^verbatim>\<open>timestamp\<close>.  \<open>log_output\<close> is the dict under \<^verbatim>\<open>"output"\<close>, which
  repeats the fields of the task output.  \<open>log_inputs\<close> is optional because replay reads
  it with \<^verbatim>\<open>.get("inputs", {})\<close>.
\<close>

record crew =
  tasks :: "ref list"
  agents :: "ref list"
  process :: process
  manager_llm :: "string option"
  manager_agent :: "ref option"
  max_rpm :: "int option"
  execution_logs :: "log_entry list"
  usage_metrics :: "usage option"
  inputs :: "inputs option"
  rpm_controller :: ref

text \<open>
  The fields of \<^verbatim>\<open>Crew\<close> that validation and execution read; \<open>inputs\<close> is the
  private \<^verbatim>\<open>_inputs\<close>, \<open>rpm_controller\<close> the identity of the rate limiter held in the
  private \<^verbatim>\<open>_rpm_controller\<close>.  A crew here is built from explicit agents and tasks
  (\<^verbatim>\<open>config\<close> is \<^verbatim>\<open>None\<close>).
\<close>

section \<open>Validation at construction\<close>

text \<open>
  A \<^verbatim>\<open>for\<close> loop whose body may raise: the first element that raises ends the loop.
\<close>

fun for_raise :: "('a \<Rightarrow> error option) \<Rightarrow> 'a list \<Rightarrow> error option" where
  "for_raise body [] = None"
| "for_raise body (x # xs) =
     (case body x of Some e \<Rightarrow> Some e | None \<Rightarrow> for_raise body xs)"

definition returning :: "error option \<Rightarrow> 'a \<Rightarrow> error + 'a" where
  "returning r self = (case r of Some e \<Rightarrow> Inl e | None \<Rightarrow> Inr self)"

definition and_then :: "error + 'a \<Rightarrow> ('a \<Rightarrow> error + 'b) \<Rightarrow> error + 'b" where
  "and_then r f = (case r of Inl e \<Rightarrow> Inl e | Inr x \<Rightarrow> f x)"

definition quoted :: "string \<Rightarrow> string" where
  "quoted s = CHR 0x27 # s @ [CHR 0x27]"

definition check_manager_llm :: "crew \<Rightarrow> error + crew" where
  "check_manager_llm self =
     (if process self = hierarchical then
        (if manager_llm self = None \<and> manager_agent self = None then
           Inl (PydanticCustomError ''missing_manager_llm_or_manager_agent''
             ''Attribute `manager_llm` or `manager_agent` is required when using hierarchical process.'')
         else (case manager_agent self of
             Some m \<Rightarrow>
               (if count_list (agents self) m > 0 then
                  Inl (PydanticCustomError ''manager_agent_in_agents''
                    ''Manager agent should not be included in agents list.'')
                else Inr self)
           | None \<Rightarrow> Inr self))
      else Inr self)"

definition check_config :: "crew \<Rightarrow> error + crew" where
  "check_config self =
     (if tasks self = [] \<and> agents self = [] then
        Inl (PydanticCustomError ''missing_keys''
          ''Either 'agents' and 'tasks' need to be set or 'config'.'')
      else Inr self)"

definition validate_tasks :: "(ref \<Rightarrow> task) \<Rightarrow> crew \<Rightarrow> error + crew" where
  "validate_tasks T self =
     (if process self = sequential then
        returning
          (for_raise
            (\<lambda>r. if agent (T r) = None then
                   Some (PydanticCustomError ''missing_agent_in_task''
                     (''Sequential process error: Agent is missing in the task with the following description: ''
                        @ description (T r)))
                 else None)
            (tasks self))
          self
      else Inr self)"

definition check_tasks_in_hierarchical_process_not_async ::
    "(ref \<Rightarrow> task) \<Rightarrow> crew \<Rightarrow> error + crew" where
  "check_tasks_in_hierarchical_process_not_async T self =
     (if process self = hierarchical then
        returning
          (for_raise
            (\<lambda>r. if async_execution (T r) then
                   Some (PydanticCustomError ''async_execution_in_hierarchical_process''
                     ''Hierarchical process error: Tasks cannot be flagged with async_execution.'')
                 else None)
            (tasks self))
          self
      else Inr self)"

definition validate_end_with_at_most_one_async_task ::
    "(ref \<Rightarrow> task) \<Rightarrow> crew \<Rightarrow> error + crew" where
  "validate_end_with_at_most_one_async_task T self =
     (let final_async_task_count =
            length (takeWhile (\<lambda>r. async_execution (T r)) (rev (tasks self)))
      in if final_async_task_count > 1 then
           Inl (PydanticCustomError ''async_task_count''
             ''The crew must end with at most one asynchronous task.'')
         else Inr self)"

text \<open>
  The innermost loop of the async-context check,
  \<^verbatim>\<open>for j in range(i - 1, -1, -1)\<close>: walking back from position \<open>i - 1\<close>, it raises
  (\<open>True\<close>) when it meets the context task and stops (\<open>False\<close>) at the first synchronous
  task or at the start of the list.

  Modelled from the spec: \<^verbatim>\<open>self.tasks[j] == context_task\<close> compares two
  \<^verbatim>\<open>Task\<close> objects, whose class is outside \<^verbatim>\<open>crew.py\<close>; the spec has context
  references resolved by identity, so the comparison is equality of references.
\<close>

fun scan_back :: "(ref \<Rightarrow> task) \<Rightarrow> ref list \<Rightarrow> ref \<Rightarrow> nat \<Rightarrow> bool" where
  "scan_back T ts c 0 = False"
| "scan_back T ts c (Suc j) =
     (if ts ! j = c then True
      else if \<not> async_execution (T (ts ! j)) then False
      else scan_back T ts c j)"

definition validate_async_task_cannot_include_sequential_async_tasks_in_context ::
    "(ref \<Rightarrow> task) \<Rightarrow> crew \<Rightarrow> error + crew" where
  "validate_async_task_cannot_include_sequential_async_tasks_in_context T self =
     returning
       (for_raise
         (\<lambda>(i, r).
            if async_execution (T r) \<and> task_context (T r) \<noteq> [] then
              for_raise
                (\<lambda>c. if async_execution (T c) \<and> scan_back T (tasks self) c i then
                       Some (ValueError (''Task '' @ quoted (description (T r))
                         @ '' is asynchronous and cannot include other sequential asynchronous tasks in its context.''))
                     else None)
                (task_context (T r))
            else None)
         (enumerate 0 (tasks self)))
       self"

text \<open>
  \<^verbatim>\<open>task_indices = {id(task): i for i, task in enumerate(self.tasks)}\<close>: a task object
  listed twice keeps its last position.
\<close>

definition task_indices :: "ref list \<Rightarrow> ref \<Rightarrow> nat option" where
  "task_indices ts = map_of (rev (zip ts [0..<length ts]))"

definition validate_context_no_future_tasks :: "(ref \<Rightarrow> task) \<Rightarrow> crew \<Rightarrow> error + crew" where
  "validate_context_no_future_tasks T self =
     returning
       (for_raise
         (\<lambda>r. if task_context (T r) \<noteq> [] then
                for_raise
                  (\<lambda>c. case task_indices (tasks self) c of
                         None \<Rightarrow> None
                       | Some ic \<Rightarrow>
                           (case task_indices (tasks self) r of
                              None \<Rightarrow> None
                            | Some ir \<Rightarrow>
                                if ic > ir then
                                  Some (ValueError (''Task '' @ quoted (description (T r))
                                    @ '' has a context dependency on a future task ''
                                    @ quoted (description (T c)) @ '', which is not allowed.''))
                                else None))
                  (task_context (T r))
              else None)
         (tasks self))
       self"

text \<open>
  Pydantic runs the \<^verbatim>\<open>mode="after"\<close> model validators in the order the class declares
  them; each returns \<^verbatim>\<open>self\<close> or raises, and a raise aborts the construction.
  \<^verbatim>\<open>set_private_attrs\<close> and \<^verbatim>\<open>create_crew_memory\<close> only create collaborators and
  never raise.
\<close>

definition Crew_init :: "(ref \<Rightarrow> task) \<Rightarrow> crew \<Rightarrow> error + crew" where
  "Crew_init T self =
     and_then (check_manager_llm self) (\<lambda>self.
     and_then (check_config self) (\<lambda>self.
     and_then (validate_tasks T self) (\<lambda>self.
     and_then (check_tasks_in_hierarchical_process_not_async T self) (\<lambda>self.
     and_then (validate_end_with_at_most_one_async_task T self) (\<lambda>self.
     and_then (validate_async_task_cannot_include_sequential_async_tasks_in_context T self)
       (validate_context_no_future_tasks T))))))"

section \<open>Execution state\<close>

text \<open>
  What a run observes and mutates: the crew object executing (\<open>this\<close>, Python's
  \<^verbatim>\<open>self\<close>), the two object stores with the next free object identity, the content of
  the checkpoint file \<^verbatim>\<open>CREW_TASKS_OUTPUT_FILE\<close> (one module-level constant, the same
  path for every crew), and the calls made to the collaborators outside \<^verbatim>\<open>crew.py\<close>,
  in the order they are made.
\<close>

datatype event =
    ResetFile
  | InterpolateInputs inputs
  | ExecuteSync nat ref "ref option" string "tool list"
  | ExecuteAsync nat ref "ref option" string "tool list"
  | UpdateFile nat log_entry
  | StopRpmCounter ref
  | EndCrew string

text \<open>
  \<open>ExecuteSync i r a context tools\<close> is the call
  \<^verbatim>\<open>task.execute_sync(agent=a, context=context, tools=tools)\<close> on the task object \<open>r\<close>
  made at loop position \<open>i\<close>; \<open>ExecuteAsync\<close> likewise for \<^verbatim>\<open>execute_async\<close>.
  \<open>UpdateFile i log\<close> is \<^verbatim>\<open>TaskOutputJsonHandler(CREW_TASKS_OUTPUT_FILE).update(i, log)\<close>,
  \<open>ResetFile\<close> its \<^verbatim>\<open>initialize_file\<close> and \<^verbatim>\<open>reset\<close>, \<open>StopRpmCounter c\<close> is
  \<^verbatim>\<open>self._rpm_controller.stop_rpm_counter()\<close> on the rate limiter \<open>c\<close> and \<open>EndCrew\<close> is
  \<^verbatim>\<open>self._telemetry.end_crew\<close>.  Logger and log-file lines are not recorded.
\<close>

record state =
  this :: crew
  task_objs :: "ref \<Rightarrow> task"
  agent_objs :: "ref \<Rightarrow> agent"
  next_ref :: ref
  output_file :: "log_entry list"
  events :: "event list"

record crew_output =
  co_raw :: string
  co_pydantic :: "string option"
  co_json_dict :: "inputs option"
  tasks_output :: "task_output list"
  token_usage :: usage

text \<open>
  A method either raises or returns, and in both cases leaves a state behind.
\<close>

type_synonym 'a result = "(error \<times> state) + ('a \<times> state)"

definition state_of :: "'a result \<Rightarrow> state" where
  "state_of res = (case res of Inl (e, st) \<Rightarrow> st | Inr (x, st) \<Rightarrow> st)"

text \<open>
  The agent behind a task is outside the crew's code: given the task object, the acting
  agent, the context and the tools, it produces a result or fails with a message.  A
  pending handle (\<^verbatim>\<open>Future\<close>) carries what \<^verbatim>\<open>future.result()\<close> will give.
\<close>

type_synonym executor = "ref \<Rightarrow> ref option \<Rightarrow> string \<Rightarrow> tool list \<Rightarrow> string + task_output"

type_synonym future = "ref \<times> (string + task_output) \<times> nat"

record locals =
  task_outputs :: "task_output list"
  futures :: "future list"

section \<open>Collaborators\<close>

text \<open>
  Modelled from the spec: \<^verbatim>\<open>aggregate_raw_outputs_from_task_outputs\<close> and
  \<^verbatim>\<open>aggregate_raw_outputs_from_tasks\<close> (\<^verbatim>\<open>crewai.utilities.formatter\<close>) are not part
  of the sources.  The spec has the context resolver concatenate the raw outputs of the
  given results, and for explicit dependencies look up each referenced task's current
  result.
\<close>

definition aggregate_raw_outputs_from_task_outputs :: "task_output list \<Rightarrow> string" where
  "aggregate_raw_outputs_from_task_outputs outs = concat (map raw outs)"

definition aggregate_raw_outputs_from_tasks :: "(ref \<Rightarrow> task) \<Rightarrow> ref list \<Rightarrow> string" where
  "aggregate_raw_outputs_from_tasks T refs =
     aggregate_raw_outputs_from_task_outputs (List.map_filter (\<lambda>r. t_output (T r)) refs)"

text \<open>
  Modelled from the spec: \<^verbatim>\<open>get_delegation_tools\<close> (\<^verbatim>\<open>BaseAgent\<close>) is not part of the
  sources.  The spec has it wrap each addressable agent as a "delegate to X" capability.
\<close>

definition get_delegation_tools :: "ref list \<Rightarrow> tool list" where
  "get_delegation_tools targets = map DelegateTo targets"

text \<open>
  Modelled from the spec: \<^verbatim>\<open>TaskOutputJsonHandler.update\<close> is not part of the sources.
  The spec has \<^verbatim>\<open>update(position, entry)\<close> overwrite at the index or else append, which
  is also what \<^verbatim>\<open>_store_execution_log\<close> does to \<^verbatim>\<open>self.execution_logs\<close>.
\<close>

definition overwrite_or_append :: "nat \<Rightarrow> 'a \<Rightarrow> 'a list \<Rightarrow> 'a list" where
  "overwrite_or_append i x xs = (if i < length xs then xs[i := x] else xs @ [x])"

text \<open>
  Modelled from the spec: \<^verbatim>\<open>Task.execute_sync\<close> and \<^verbatim>\<open>Task.execute_async\<close> are not
  part of the sources.  The spec gives a task a result slot that is absent until the task
  is executed.  The synchronous call asks the agent and fills the slot; the asynchronous
  call hands the work over and returns the handle, and the slot is filled by the time
  \<^verbatim>\<open>future.result()\<close> has returned.
\<close>

definition set_output :: "ref \<Rightarrow> task_output \<Rightarrow> state \<Rightarrow> state" where
  "set_output r out st =
     st\<lparr>task_objs := (task_objs st)(r := (task_objs st r)\<lparr>t_output := Some out\<rparr>)\<rparr>"

definition execute_sync ::
    "executor \<Rightarrow> nat \<Rightarrow> ref \<Rightarrow> ref option \<Rightarrow> string \<Rightarrow> tool list \<Rightarrow> state \<Rightarrow> task_output result" where
  "execute_sync exec i r a context tls st =
     (let st1 = st\<lparr>events := events st @ [ExecuteSync i r a context tls]\<rparr>
      in case exec r a context tls of
           Inl msg \<Rightarrow> Inl (AgentError msg, st1)
         | Inr out \<Rightarrow> Inr (out, set_output r out st1))"

definition execute_async ::
    "executor \<Rightarrow> nat \<Rightarrow> ref \<Rightarrow> ref option \<Rightarrow> string \<Rightarrow> tool list \<Rightarrow> state \<Rightarrow> future \<times> state" where
  "execute_async exec i r a context tls st =
     ((r, exec r a context tls, i), st\<lparr>events := events st @ [ExecuteAsync i r a context tls]\<rparr>)"

section \<open>The engine\<close>

definition truthy :: "int option \<Rightarrow> bool" where
  "truthy v = (case v of None \<Rightarrow> False | Some n \<Rightarrow> n \<noteq> 0)"

definition execution_log :: "state \<Rightarrow> ref \<Rightarrow> task_output \<Rightarrow> nat \<Rightarrow> bool \<Rightarrow> log_entry" where
  "execution_log st r out i replayed =
     (let ins = (case inputs (this st) of
                   Some m \<Rightarrow> if m \<noteq> [] then m else []
                 | None \<Rightarrow> [])
      in \<lparr>log_task_id = task_id (task_objs st r),
          log_expected_output = expected_output (task_objs st r),
          log_output = out,
          task_index = i,
          log_inputs = Some ins,
          was_replayed = replayed\<rparr>)"

definition store_execution_log :: "ref \<Rightarrow> task_output \<Rightarrow> nat \<Rightarrow> bool \<Rightarrow> state \<Rightarrow> state" where
  "store_execution_log r out i replayed st =
     (let log = execution_log st r out i replayed
      in st\<lparr>this := (this st)\<lparr>execution_logs :=
                overwrite_or_append i log (execution_logs (this st))\<rparr>,
            output_file := overwrite_or_append i log (output_file st),
            events := events st @ [UpdateFile i log]\<rparr>)"

definition set_context :: "state \<Rightarrow> ref \<Rightarrow> task_output list \<Rightarrow> string" where
  "set_context st r outs =
     (if task_context (task_objs st r) \<noteq> [] then
        aggregate_raw_outputs_from_tasks (task_objs st) (task_context (task_objs st r))
      else aggregate_raw_outputs_from_task_outputs outs)"

text \<open>
  \<^verbatim>\<open>_process_async_tasks\<close>: the handles are resolved in the order they were enqueued;
  \<open>acc\<close> is the local list \<^verbatim>\<open>task_outputs\<close> of the method, empty at the call.
\<close>

fun resolve_futures ::
    "future list \<Rightarrow> bool \<Rightarrow> task_output list \<Rightarrow> state \<Rightarrow> task_output list result" where
  "resolve_futures [] replayed acc st = Inr (acc, st)"
| "resolve_futures ((r, res, i) # fs) replayed acc st =
     (case res of
        Inl msg \<Rightarrow> Inl (AgentError msg, st)
      | Inr out \<Rightarrow>
          resolve_futures fs replayed (acc @ [out])
            (store_execution_log r out i replayed (set_output r out st)))"

definition process_async_tasks :: "future list \<Rightarrow> bool \<Rightarrow> state \<Rightarrow> task_output list result" where
  "process_async_tasks fs replayed st = resolve_futures fs replayed [] st"

text \<open>
  \<^verbatim>\<open>if futures: task_outputs = self._process_async_tasks(futures); futures.clear()\<close>
\<close>

definition flush :: "bool \<Rightarrow> locals \<times> state \<Rightarrow> (error \<times> state) + (locals \<times> state)" where
  "flush replayed = (\<lambda>(L, st).
     if futures L \<noteq> [] then
       (case process_async_tasks (futures L) replayed st of
          Inl e \<Rightarrow> Inl e
        | Inr (outs, st') \<Rightarrow> Inr (\<lparr>task_outputs = outs, futures = []\<rparr>, st'))
     else Inr (L, st))"

text \<open>
  The first block of the loop body: a task whose own agent may delegate gets the
  delegation tools for every other agent of the crew.
\<close>

definition wire_task_delegation :: "ref \<Rightarrow> state \<Rightarrow> state" where
  "wire_task_delegation r st =
     (case agent (task_objs st r) of
        None \<Rightarrow> st
      | Some a \<Rightarrow>
          if allow_delegation (agent_objs st a) then
            (let agents_for_delegation = filter (\<lambda>x. x \<noteq> a) (agents (this st))
             in if length (agents (this st)) > 1 \<and> length agents_for_delegation > 0 then
                  st\<lparr>task_objs := (task_objs st)(r := (task_objs st r)
                       \<lparr>task_tools := task_tools (task_objs st r)
                          @ get_delegation_tools agents_for_delegation\<rparr>)\<rparr>
                else st)
          else st)"

text \<open>
  The second block, for the hierarchical process: two assignments to the manager's
  tools, one after the other.
\<close>

definition set_tools :: "ref \<Rightarrow> tool list \<Rightarrow> state \<Rightarrow> state" where
  "set_tools a tls st = st\<lparr>agent_objs := (agent_objs st)(a := (agent_objs st a)\<lparr>tools := tls\<rparr>)\<rparr>"

definition wire_manager_tools :: "ref \<Rightarrow> ref option \<Rightarrow> state \<Rightarrow> state" where
  "wire_manager_tools r manager st =
     (if process (this st) = hierarchical then
        (let st1 = (case (agent (task_objs st r), manager) of
                      (Some a, Some m) \<Rightarrow> set_tools m (get_delegation_tools [a]) st
                    | _ \<Rightarrow> st)
         in case manager of
              Some m \<Rightarrow> set_tools m (get_delegation_tools (agents (this st1))) st1
            | None \<Rightarrow> st1)
      else st)"

definition agent_to_use :: "state \<Rightarrow> ref \<Rightarrow> ref option \<Rightarrow> ref option" where
  "agent_to_use st r manager =
     (case agent (task_objs st r) of Some a \<Rightarrow> Some a | None \<Rightarrow> manager)"

text \<open>
  Both blocks, as they stand at the head of the loop body in \<^verbatim>\<open>_execute_tasks\<close> and
  in \<^verbatim>\<open>replay_from_task\<close>.
\<close>

definition wire :: "ref \<Rightarrow> ref option \<Rightarrow> state \<Rightarrow> state" where
  "wire r manager st = wire_manager_tools r manager (wire_task_delegation r st)"

text \<open>
  The body of the loop of \<^verbatim>\<open>_execute_tasks\<close> for the task object \<open>r\<close> at position \<open>i\<close>.
\<close>

definition dispatch_task ::
    "executor \<Rightarrow> ref option \<Rightarrow> locals \<times> state \<Rightarrow> nat \<times> ref
       \<Rightarrow> (error \<times> state) + (locals \<times> state)" where
  "dispatch_task exec manager = (\<lambda>(L, st0) (i, r).
     let st = wire r manager st0 in
     if async_execution (task_objs st r) then
       (let context = set_context st r (task_outputs L) in
        case agent_to_use st r manager of
          Some a \<Rightarrow>
            (let (fut, st') = execute_async exec i r (Some a) context (tools (agent_objs st a)) st
             in Inr (L\<lparr>futures := futures L @ [fut]\<rparr>, st'))
        | None \<Rightarrow> Inr (L, st))
     else
       (case flush False (L, st) of
          Inl e \<Rightarrow> Inl e
        | Inr (L1, st1) \<Rightarrow>
            (let context = set_context st1 r (task_outputs L1) in
             case agent_to_use st1 r manager of
               Some a \<Rightarrow>
                 (case execute_sync exec i r (Some a) context (tools (agent_objs st1 a)) st1 of
                    Inl e \<Rightarrow> Inl e
                  | Inr (out, st2) \<Rightarrow>
                      Inr (L1\<lparr>task_outputs := [out]\<rparr>, store_execution_log r out i False st2))
             | None \<Rightarrow> Inr (L1, st1))))"

text \<open>
  A \<^verbatim>\<open>for\<close> loop over the enumerated tasks whose body may raise.
\<close>

fun for_tasks ::
    "('s \<Rightarrow> 'x \<Rightarrow> (error \<times> state) + 's) \<Rightarrow> 's \<Rightarrow> 'x list \<Rightarrow> (error \<times> state) + 's" where
  "for_tasks body s [] = Inr s"
| "for_tasks body s (x # xs) =
     (case body s x of Inl e \<Rightarrow> Inl e | Inr s' \<Rightarrow> for_tasks body s' xs)"

definition finish_execution :: "string \<Rightarrow> state \<Rightarrow> state" where
  "finish_execution final_string_output st =
     (let st1 = (if truthy (max_rpm (this st))
                 then st\<lparr>events := events st @ [StopRpmCounter (rpm_controller (this st))]\<rparr>
                 else st)
      in st1\<lparr>events := events st1 @ [EndCrew final_string_output]\<rparr>)"

definition zero_usage :: usage where
  "zero_usage = \<lparr>total_tokens = 0, prompt_tokens = 0, completion_tokens = 0,
                 successful_requests = 0\<rparr>"

definition add_usage :: "usage \<Rightarrow> usage \<Rightarrow> usage" where
  "add_usage u v =
     \<lparr>total_tokens = total_tokens u + total_tokens v,
      prompt_tokens = prompt_tokens u + prompt_tokens v,
      completion_tokens = completion_tokens u + completion_tokens v,
      successful_requests = successful_requests u + successful_requests v\<rparr>"

definition calculate_usage_metrics :: "state \<Rightarrow> usage" where
  "calculate_usage_metrics st =
     (let total_usage_metrics =
            foldl (\<lambda>total a. case token_process (agent_objs st a) of
                               Some token_sum \<Rightarrow> add_usage total token_sum
                             | None \<Rightarrow> total)
                  zero_usage (agents (this st))
      in case manager_agent (this st) of
           Some m \<Rightarrow>
             (case token_process (agent_objs st m) of
                Some token_sum \<Rightarrow> add_usage total_usage_metrics token_sum
              | None \<Rightarrow> total_usage_metrics)
         | None \<Rightarrow> total_usage_metrics)"

definition crew_result :: "task_output \<Rightarrow> state \<Rightarrow> crew_output" where
  "crew_result final_task_output st =
     \<lparr>co_raw = raw final_task_output,
      co_pydantic = pydantic final_task_output,
      co_json_dict = json_dict final_task_output,
      tasks_output = List.map_filter (\<lambda>r. t_output (task_objs st r)) (tasks (this st)),
      token_usage = calculate_usage_metrics st\<rparr>"

text \<open>
  \<^verbatim>\<open>_execute_tasks\<close>: the loop over the enumerated tasks with the flush of the handles
  still pending after it, then the final result, taken from element 0 of the rolling list.
\<close>

definition dispatch_loop ::
    "executor \<Rightarrow> ref list \<Rightarrow> ref option \<Rightarrow> state \<Rightarrow> (error \<times> state) + (locals \<times> state)" where
  "dispatch_loop exec ts manager st =
     (case for_tasks (dispatch_task exec manager) (\<lparr>task_outputs = [], futures = []\<rparr>, st)
             (enumerate 0 ts) of
        Inl e \<Rightarrow> Inl e
      | Inr (L, st1) \<Rightarrow> flush False (L, st1))"

definition execute_tasks :: "executor \<Rightarrow> ref list \<Rightarrow> ref option \<Rightarrow> state \<Rightarrow> crew_output result" where
  "execute_tasks exec ts manager st =
     (case dispatch_loop exec ts manager st of
        Inl e \<Rightarrow> Inl e
      | Inr (L, st2) \<Rightarrow>
          (case task_outputs L of
             [] \<Rightarrow> Inl (IndexError, st2)
           | final_task_output # _ \<Rightarrow>
               (let st3 = finish_execution (raw final_task_output) st2
                in Inr (crew_result final_task_output st3, st3))))"

definition run_sequential_process :: "executor \<Rightarrow> state \<Rightarrow> crew_output result" where
  "run_sequential_process exec st =
     (let st1 = st\<lparr>this := (this st)\<lparr>execution_logs := []\<rparr>\<rparr>
      in execute_tasks exec (tasks (this st1)) None st1)"

text \<open>
  Manager assembly, the same code in \<^verbatim>\<open>_run_hierarchical_process\<close> and in
  \<^verbatim>\<open>_create_manager_agent\<close>.  A supplied manager must come without tools.  Otherwise
  a new agent object is created.

  Modelled from the spec: the \<^verbatim>\<open>Agent\<close> constructor, \<^verbatim>\<open>AgentTools\<close> and the
  \<^verbatim>\<open>I18N\<close> templates are not part of the sources.  The spec has the constructed manager
  take its role from a template source and, as tools, the delegation capability over the
  full worker roster.
\<close>

definition new_manager :: "ref list \<Rightarrow> agent" where
  "new_manager roster =
     \<lparr>role = ''hierarchical_manager_agent'',
      allow_delegation = True,
      allow_code_execution = False,
      code_execution_tools = [],
      tools = get_delegation_tools roster,
      token_process = Some zero_usage\<rparr>"

definition create_manager_agent :: "state \<Rightarrow> ref result" where
  "create_manager_agent st =
     (case manager_agent (this st) of
        Some m \<Rightarrow>
          (let st1 = st\<lparr>agent_objs := (agent_objs st)(m := (agent_objs st m)\<lparr>allow_delegation := True\<rparr>)\<rparr>
           in if length (tools (agent_objs st1 m)) > 0 then
                Inl (Exception ''Manager agent should not have tools'', st1)
              else Inr (m, set_tools m (get_delegation_tools (agents (this st1))) st1))
      | None \<Rightarrow>
          (let m = next_ref st
           in Inr (m, st\<lparr>agent_objs := (agent_objs st)(m := new_manager (agents (this st))),
                         next_ref := Suc m,
                         this := (this st)\<lparr>manager_agent := Some m\<rparr>\<rparr>)))"

definition run_hierarchical_process :: "executor \<Rightarrow> state \<Rightarrow> crew_output result" where
  "run_hierarchical_process exec st =
     (let st1 = st\<lparr>this := (this st)\<lparr>execution_logs := []\<rparr>\<rparr>
      in case create_manager_agent st1 of
           Inl e \<Rightarrow> Inl e
         | Inr (manager, st2) \<Rightarrow> execute_tasks exec (tasks (this st2)) (Some manager) st2)"

text \<open>
  \<^verbatim>\<open>kickoff\<close>.  Of the per-agent setup only the code-execution tools change anything
  the crew reads later; the prompt templates, callbacks and the agent executor are
  internal to the agent.
\<close>

definition prepare_agent :: "state \<Rightarrow> ref \<Rightarrow> state" where
  "prepare_agent st a =
     (if allow_code_execution (agent_objs st a) then
        set_tools a (tools (agent_objs st a) @ code_execution_tools (agent_objs st a)) st
      else st)"

definition run_process :: "executor \<Rightarrow> state \<Rightarrow> crew_output result" where
  "run_process exec st =
     (case process (this st) of
        sequential \<Rightarrow> run_sequential_process exec st
      | hierarchical \<Rightarrow> run_hierarchical_process exec st)"

definition kickoff :: "executor \<Rightarrow> inputs option \<Rightarrow> state \<Rightarrow> crew_output result" where
  "kickoff exec ins st =
     (let st1 = st\<lparr>output_file := [], events := events st @ [ResetFile]\<rparr>;
          st2 = (case ins of
                   Some m \<Rightarrow> st1\<lparr>this := (this st1)\<lparr>inputs := Some m\<rparr>,
                                events := events st1 @ [InterpolateInputs m]\<rparr>
                 | None \<Rightarrow> st1);
          st3 = foldl prepare_agent st2 (agents (this st2))
      in case run_process exec st3 of
           Inl e \<Rightarrow> Inl e
         | Inr (result, st4) \<Rightarrow>
             (if list_ex (\<lambda>a. token_process (agent_objs st4 a) = None) (agents (this st4)) then
                Inl (AttributeError, st4)
              else
                (let metrics = List.map_filter (\<lambda>a. token_process (agent_objs st4 a))
                                 (agents (this st4))
                 in if metrics = [] then Inl (IndexError, st4)
                    else Inr (result,
                           st4\<lparr>this := (this st4)\<lparr>usage_metrics :=
                                  Some (foldl add_usage zero_usage metrics)\<rparr>\<rparr>))))"

text \<open>
  The part of \<^verbatim>\<open>kickoff\<close> before the process runs: the state it yields is the one in
  which the process starts.
\<close>

definition kickoff_prepare :: "inputs option \<Rightarrow> state \<Rightarrow> state" where
  "kickoff_prepare ins st =
     (let st1 = st\<lparr>output_file := [], events := events st @ [ResetFile]\<rparr>;
          st2 = (case ins of
                   Some m \<Rightarrow> st1\<lparr>this := (this st1)\<lparr>inputs := Some m\<rparr>,
                                events := events st1 @ [InterpolateInputs m]\<rparr>
                 | None \<Rightarrow> st1)
      in foldl prepare_agent st2 (agents (this st2)))"

section \<open>Replay\<close>

fun find_task_index :: "string \<Rightarrow> log_entry list \<Rightarrow> nat option" where
  "find_task_index tid [] = None"
| "find_task_index tid (d # ds) =
     (if log_task_id d = tid then Some 0 else map_option Suc (find_task_index tid ds))"

text \<open>
  The \<^verbatim>\<open>TaskOutput\<close> that replay builds from the output stored in a log entry: the
  constructor is called with the six stored fields.
\<close>

definition stored_task_output :: "task_output \<Rightarrow> task_output" where
  "stored_task_output stored_output =
     \<lparr>o_description = o_description stored_output,
      raw = raw stored_output,
      pydantic = pydantic stored_output,
      json_dict = json_dict stored_output,
      output_format = output_format stored_output,
      o_agent = o_agent stored_output\<rparr>"

text \<open>
  The body of the loop of \<^verbatim>\<open>replay_from_task\<close>.  \<^verbatim>\<open>self.tasks[task_index]\<close> is the
  loop's own task object \<open>r\<close>, and \<open>stored_outputs ! i\<close> is only read for
  \<open>i < start_index\<close>, a position of the log.
\<close>

definition replay_task ::
    "executor \<Rightarrow> log_entry list \<Rightarrow> nat \<Rightarrow> locals \<times> state \<Rightarrow> nat \<times> ref
       \<Rightarrow> (error \<times> state) + (locals \<times> state)" where
  "replay_task exec stored_outputs start_index = (\<lambda>(L, st0) (i, r).
     if i < start_index then
       (let task_output = stored_task_output (log_output (stored_outputs ! i))
        in Inr (L\<lparr>task_outputs := [task_output]\<rparr>, set_output r task_output st0))
     else
       (let manager = manager_agent (this st0);
            st = wire r manager st0
        in if async_execution (task_objs st r) then
             (let context = set_context st r (task_outputs L);
                  (fut, st') = execute_async exec i r (agent_to_use st r manager) context
                                 (task_tools (task_objs st r)) st
              in Inr (L\<lparr>futures := futures L @ [fut]\<rparr>, st'))
           else
             (case flush True (L, st) of
                Inl e \<Rightarrow> Inl e
              | Inr (L1, st1) \<Rightarrow>
                  (let context = set_context st1 r (task_outputs L1)
                   in case execute_sync exec i r (agent_to_use st1 r manager) context
                             (task_tools (task_objs st1 r)) st1 of
                        Inl e \<Rightarrow> Inl e
                      | Inr (out, st2) \<Rightarrow>
                          Inr (L1\<lparr>task_outputs := [out]\<rparr>,
                               store_execution_log r out i True st2)))))"

definition replay_loop ::
    "executor \<Rightarrow> log_entry list \<Rightarrow> nat \<Rightarrow> state \<Rightarrow> (error \<times> state) + (locals \<times> state)" where
  "replay_loop exec stored_outputs start_index st =
     (case for_tasks (replay_task exec stored_outputs start_index)
             (\<lparr>task_outputs = [], futures = []\<rparr>, st) (enumerate 0 (tasks (this st))) of
        Inl e \<Rightarrow> Inl e
      | Inr (L, st1) \<Rightarrow> flush True (L, st1))"

text \<open>
  The effective inputs of a replay, and the preparation before its loop.
\<close>

definition replay_inputs :: "inputs option \<Rightarrow> log_entry \<Rightarrow> inputs" where
  "replay_inputs ins entry =
     (case ins of
        Some m \<Rightarrow> m
      | None \<Rightarrow> (case log_inputs entry of Some m \<Rightarrow> m | None \<Rightarrow> []))"

definition replay_from_task :: "executor \<Rightarrow> string \<Rightarrow> inputs option \<Rightarrow> state \<Rightarrow> crew_output result" where
  "replay_from_task exec tid ins st =
     (let stored_outputs = output_file st
      in case find_task_index tid stored_outputs of
           None \<Rightarrow>
             Inl (ValueError (''Task with id '' @ tid @ '' not found in the crew's tasks.''), st)
         | Some start_index \<Rightarrow>
             (let m = replay_inputs ins (stored_outputs ! start_index);
                  st1 = st\<lparr>this := (this st)\<lparr>inputs := Some m\<rparr>\<rparr>;
                  st2 = (if m \<noteq> [] then st1\<lparr>events := events st1 @ [InterpolateInputs m]\<rparr>
                         else st1)
              in case (if process (this st2) = hierarchical then create_manager_agent st2
                       else Inr (0, st2)) of
                   Inl e \<Rightarrow> Inl e
                 | Inr (_, st3) \<Rightarrow>
                     (case replay_loop exec stored_outputs start_index st3 of
                        Inl e \<Rightarrow> Inl e
                      | Inr (L, st5) \<Rightarrow>
                          (case task_outputs L of
                             [final_task_output] \<Rightarrow>
                               (let st6 = finish_execution (raw final_task_output) st5
                                in Inr (crew_result final_task_output st6, st6))
                           | _ \<Rightarrow>
                               Inl (ValueError
                                 ''Something went wrong. Kickoff should return only one task output.'',
                                 st5)))))"




section \<open>Batch runs on copies\<close>

text \<open>
  \<^verbatim>\<open>Crew.copy\<close> clones every agent with \<^verbatim>\<open>agent.copy()\<close> and every task with
  \<^verbatim>\<open>task.copy(cloned_agents)\<close>, dumps the remaining public fields and builds a new crew
  from them, which runs the validators again.  \<^verbatim>\<open>Agent.copy\<close>, \<^verbatim>\<open>Task.copy\<close> and
  pydantic's rebuilding of the dumped manager agent are outside \<^verbatim>\<open>crew.py\<close>; they are
  parameters here, each giving the fields of the object it creates (or, for the manager, a
  failure).  What the model fixes is that each of them creates a new object, one with an
  identity no object had before.  The constructor's first validator,
  \<^verbatim>\<open>set_private_attrs\<close>, creates the rate limiter of the new crew, a new object as well;
  the other validators are those of \<open>Crew_init\<close>.
\<close>

record cloning =
  agent_copy :: "agent \<Rightarrow> agent"
  task_copy :: "(ref \<Rightarrow> agent) \<Rightarrow> ref list \<Rightarrow> task \<Rightarrow> task"
  revalidate :: "agent \<Rightarrow> string + agent"

definition new_agent :: "agent \<Rightarrow> state \<Rightarrow> ref \<times> state" where
  "new_agent ag st =
     (next_ref st,
      st\<lparr>agent_objs := (agent_objs st)(next_ref st := ag), next_ref := Suc (next_ref st)\<rparr>)"

definition new_task :: "task \<Rightarrow> state \<Rightarrow> ref \<times> state" where
  "new_task t st =
     (next_ref st,
      st\<lparr>task_objs := (task_objs st)(next_ref st := t), next_ref := Suc (next_ref st)\<rparr>)"

fun clone_agents :: "cloning \<Rightarrow> ref list \<Rightarrow> state \<Rightarrow> ref list \<times> state" where
  "clone_agents cl [] st = ([], st)"
| "clone_agents cl (a # as) st =
     (let (n, st1) = new_agent (agent_copy cl (agent_objs st a)) st;
          (ns, st2) = clone_agents cl as st1
      in (n # ns, st2))"

fun clone_tasks :: "cloning \<Rightarrow> ref list \<Rightarrow> ref list \<Rightarrow> state \<Rightarrow> ref list \<times> state" where
  "clone_tasks cl cloned_agents [] st = ([], st)"
| "clone_tasks cl cloned_agents (r # rs) st =
     (let (n, st1) = new_task (task_copy cl (agent_objs st) cloned_agents (task_objs st r)) st;
          (ns, st2) = clone_tasks cl cloned_agents rs st1
      in (n # ns, st2))"

definition new_rpm_controller :: "state \<Rightarrow> ref \<times> state" where
  "new_rpm_controller st = (next_ref st, st\<lparr>next_ref := Suc (next_ref st)\<rparr>)"

definition copy :: "cloning \<Rightarrow> state \<Rightarrow> crew result" where
  "copy cl st =
     (let self = this st;
          (cloned_agents, st1) = clone_agents cl (agents self) st;
          (cloned_tasks, st2) = clone_tasks cl cloned_agents (tasks self) st1
      in case (case manager_agent self of
                 None \<Rightarrow> Inr (None, st2)
               | Some m \<Rightarrow>
                   (case revalidate cl (agent_objs st2 m) of
                      Inl msg \<Rightarrow> Inl (ValidationError msg, st2)
                    | Inr ag \<Rightarrow> (let (n, st3) = new_agent ag st2 in Inr (Some n, st3)))) of
           Inl e \<Rightarrow> Inl e
         | Inr (manager, st3) \<Rightarrow>
             (let (rpm, st4) = new_rpm_controller st3;
                  copied_crew =
                    \<lparr>tasks = cloned_tasks, agents = cloned_agents, process = process self,
                     manager_llm = manager_llm self, manager_agent = manager,
                     max_rpm = max_rpm self, execution_logs = execution_logs self,
                     usage_metrics = usage_metrics self, inputs = None,
                     rpm_controller = rpm\<rparr>
              in case Crew_init (task_objs st4) copied_crew of
                   Inl e \<Rightarrow> Inl (e, st4)
                 | Inr c \<Rightarrow> Inr (c, st4)))"

text \<open>
  \<^verbatim>\<open>kickoff_for_each\<close>: the loop over the inputs, each run on a copy that is dropped after
  its usage has been added up, then the assignment of the total to the crew itself.  While
  a copy runs it is the crew executing; afterwards \<open>this\<close> is the original again.
\<close>

fun kickoff_each ::
    "cloning \<Rightarrow> executor \<Rightarrow> inputs list \<Rightarrow> crew_output list \<times> usage \<Rightarrow> state
       \<Rightarrow> (crew_output list \<times> usage) result" where
  "kickoff_each cl exec [] acc st = Inr (acc, st)"
| "kickoff_each cl exec (input_data # rest) (results, total_usage_metrics) st =
     (case copy cl st of
        Inl e \<Rightarrow> Inl e
      | Inr (crew, st1) \<Rightarrow>
          (case kickoff exec (Some input_data) (st1\<lparr>this := crew\<rparr>) of
             Inl (e, st2) \<Rightarrow> Inl (e, st2\<lparr>this := this st\<rparr>)
           | Inr (output, st2) \<Rightarrow>
               kickoff_each cl exec rest
                 (results @ [output],
                  (case usage_metrics (this st2) of
                     Some u \<Rightarrow> add_usage total_usage_metrics u
                   | None \<Rightarrow> total_usage_metrics))
                 (st2\<lparr>this := this st\<rparr>)))"

definition kickoff_for_each :: "cloning \<Rightarrow> executor \<Rightarrow> inputs list \<Rightarrow> state \<Rightarrow> crew_output list result" where
  "kickoff_for_each cl exec ins st =
     (case kickoff_each cl exec ins ([], zero_usage) st of
        Inl e \<Rightarrow> Inl e
      | Inr ((results, total_usage_metrics), st') \<Rightarrow>
          Inr (results, st'\<lparr>this := (this st')\<lparr>usage_metrics := Some total_usage_metrics\<rparr>\<rparr>))"

section \<open>Observations on a run\<close>

text \<open>
  How often the rate limiter's stop operation was called.
\<close>

fun is_stop :: "event \<Rightarrow> bool" where
  "is_stop (StopRpmCounter c) = True"
| "is_stop e = False"

definition stop_count :: "event list \<Rightarrow> nat" where
  "stop_count evs = length (filter is_stop evs)"

text \<open>
  The loop position at which an execution call was made, and the checkpoint writes.
\<close>

fun executed_at :: "event \<Rightarrow> nat option" where
  "executed_at (ExecuteSync i r a c t) = Some i"
| "executed_at (ExecuteAsync i r a c t) = Some i"
| "executed_at e = None"

fun is_update :: "event \<Rightarrow> bool" where
  "is_update (UpdateFile i l) = True"
| "is_update e = False"

text \<open>
  What a run leaves alone: between \<open>st\<close> and \<open>st'\<close> the calls recorded so far stay and
  the new ones satisfy \<open>P\<close>; a task keeps every field but its tools and its result slot,
  an agent every field but its tools, the crew every field but its in-memory log; and no
  object is created.
\<close>

definition evolves :: "(event \<Rightarrow> bool) \<Rightarrow> state \<Rightarrow> state \<Rightarrow> bool" where
  "evolves P st st' \<longleftrightarrow>
     (\<exists>new. events st' = events st @ new \<and> list_all P new)
     \<and> (\<forall>r. task_objs st' r = (task_objs st r)
           \<lparr>task_tools := task_tools (task_objs st' r), t_output := t_output (task_objs st' r)\<rparr>)
     \<and> (\<forall>a. agent_objs st' a = (agent_objs st a)\<lparr>tools := tools (agent_objs st' a)\<rparr>)
     \<and> this st' = (this st)\<lparr>execution_logs := execution_logs (this st')\<rparr>
     \<and> next_ref st' = next_ref st"

definition step_event :: "nat \<Rightarrow> event \<Rightarrow> bool" where
  "step_event i e \<longleftrightarrow> is_update e \<or> executed_at e = Some i"

text \<open>
  The results written to the checkpoint log by a sequence of calls, in the order they were
  written, and those of the most recent batch only: a batch is a maximal run of
  consecutive checkpoint writes, so the last batch is what the latest synchronous task or
  the latest flush has written.
\<close>

fun flushed :: "event \<Rightarrow> task_output option" where
  "flushed (UpdateFile i l) = Some (log_output l)"
| "flushed e = None"

definition all_flushed :: "event list \<Rightarrow> task_output list" where
  "all_flushed evs = List.map_filter flushed evs"

fun batch_scan :: "task_output list \<times> bool \<Rightarrow> event \<Rightarrow> task_output list \<times> bool" where
  "batch_scan (batch, writing) (UpdateFile i l) =
     ((if writing then batch else []) @ [log_output l], True)"
| "batch_scan (batch, writing) e = (batch, False)"

definition last_batch :: "event list \<Rightarrow> task_output list" where
  "last_batch evs = fst (foldl batch_scan ([], False) evs)"

text \<open>
  The context carried by an execution call \<open>e\<close> that follows the calls \<open>pre\<close>, for a task
  without explicit context, is the aggregate of the last batch of \<open>pre\<close>; \<open>contexts_ok\<close>
  says so of every call in a sequence.
\<close>

fun context_ok :: "(ref \<Rightarrow> task) \<Rightarrow> event list \<Rightarrow> event \<Rightarrow> bool" where
  "context_ok T pre (ExecuteSync i r a c t) =
     (task_context (T r) = [] \<longrightarrow> c = aggregate_raw_outputs_from_task_outputs (last_batch pre))"
| "context_ok T pre (ExecuteAsync i r a c t) =
     (task_context (T r) = [] \<longrightarrow> c = aggregate_raw_outputs_from_task_outputs (last_batch pre))"
| "context_ok T pre e = True"

definition contexts_ok :: "(ref \<Rightarrow> task) \<Rightarrow> event list \<Rightarrow> bool" where
  "contexts_ok T evs \<longleftrightarrow> (\<forall>n<length evs. context_ok T (take n evs) (evs ! n))"

text \<open>
  The loop invariant behind it: the rolling list is the last batch of the calls made since
  the loop started in \<open>st0\<close>, and handles are pending only while no write is the latest
  call.
\<close>

definition rolling_inv :: "state \<Rightarrow> locals \<times> state \<Rightarrow> bool" where
  "rolling_inv st0 = (\<lambda>(L, s).
     evolves (\<lambda>e. True) st0 s \<and>
     (let new = drop (length (events st0)) (events s);
          scan = foldl batch_scan ([], False) new
      in fst scan = task_outputs L \<and> (futures L \<noteq> [] \<longrightarrow> \<not> snd scan) \<and>
         contexts_ok (task_objs st0) new))"

definition abort_inv :: "state \<Rightarrow> state \<Rightarrow> bool" where
  "abort_inv st0 s \<longleftrightarrow>
     evolves (\<lambda>e. True) st0 s \<and>
     contexts_ok (task_objs st0) (drop (length (events st0)) (events s))"

definition engine_inv :: "state \<Rightarrow> (error \<times> state) + (locals \<times> state) \<Rightarrow> bool" where
  "engine_inv st0 res = (case res of Inl (e, s) \<Rightarrow> abort_inv st0 s | Inr p \<Rightarrow> rolling_inv st0 p)"

text \<open>
  Which objects a stretch of execution may have written: between \<open>st\<close> and \<open>st'\<close> every
  task object outside \<open>R\<close> and every agent object outside \<open>A\<close> is unchanged.
\<close>

definition frame :: "ref set \<Rightarrow> ref set \<Rightarrow> state \<Rightarrow> state \<Rightarrow> bool" where
  "frame R A st st' \<longleftrightarrow>
     (\<forall>x. x \<notin> R \<longrightarrow> task_objs st' x = task_objs st x) \<and>
     (\<forall>a. a \<notin> A \<longrightarrow> agent_objs st' a = agent_objs st a)"

text \<open>
  One counter of an agent's usage summary, 0 for an agent without the attribute.
\<close>

definition counted :: "(usage \<Rightarrow> int) \<Rightarrow> state \<Rightarrow> ref \<Rightarrow> int" where
  "counted field st a = (case token_process (agent_objs st a) of Some u \<Rightarrow> field u | None \<Rightarrow> 0)"

section \<open>Example crews\<close>

text \<open>
  Small concrete crews on which the theorems below are instantiated.
\<close>

definition plain_task :: task where
  "plain_task =
     \<lparr>task_id = ''t'', description = ''d'', expected_output = ''e'', agent = Some 0,
      task_context = [], async_execution = False, task_tools = [], t_output = None\<rparr>"

definition plain_crew :: "ref list \<Rightarrow> crew" where
  "plain_crew ts =
     \<lparr>tasks = ts, agents = [0], process = sequential, manager_llm = None,
      manager_agent = None, max_rpm = None, execution_logs = [], usage_metrics = None,
      inputs = None, rpm_controller = 50\<rparr>"

text \<open>
  Task 0 is asynchronous; task 1 is asynchronous and has task 0 in its context.
\<close>

definition async_pair :: "ref \<Rightarrow> task" where
  "async_pair = (\<lambda>r. plain_task)
     (0 := plain_task\<lparr>async_execution := True\<rparr>,
      1 := plain_task\<lparr>async_execution := True, task_context := [0]\<rparr>)"

text \<open>
  Task 0 has itself and task 7 in its context.
\<close>

definition self_reference :: "ref \<Rightarrow> task" where
  "self_reference = (\<lambda>r. plain_task)(0 := plain_task\<lparr>task_context := [0, 7]\<rparr>)"

text \<open>
  Task 0 is asynchronous and has itself in its context.
\<close>

definition self_async :: "ref \<Rightarrow> task" where
  "self_async = (\<lambda>r. plain_task)
     (0 := plain_task\<lparr>async_execution := True, task_context := [0]\<rparr>)"

text \<open>
  No task has an agent.
\<close>

definition agentless :: "ref \<Rightarrow> task" where
  "agentless = (\<lambda>r. plain_task\<lparr>agent := None\<rparr>)"

text \<open>
  Task 0 has task 1 in its context.
\<close>

definition forward_reference :: "ref \<Rightarrow> task" where
  "forward_reference = (\<lambda>r. plain_task)(0 := plain_task\<lparr>task_context := [1]\<rparr>)"

text \<open>
  A state holding the plain crew: every agent is the same worker, nothing has run yet.
  The agent \<open>echo\<close> answers the task \<open>r\<close> with the \<open>r\<close>-th letter, whatever it is
  given; \<open>failing\<close> always fails.
\<close>

definition worker :: agent where
  "worker =
     \<lparr>role = ''worker'', allow_delegation = False, allow_code_execution = False,
      code_execution_tools = [], tools = [],
      token_process = Some \<lparr>total_tokens = 3, prompt_tokens = 2, completion_tokens = 1,
                             successful_requests = 1\<rparr>\<rparr>"

definition plain_state :: "crew \<Rightarrow> (ref \<Rightarrow> task) \<Rightarrow> state" where
  "plain_state c T =
     \<lparr>this = c, task_objs = T, agent_objs = (\<lambda>a. worker), next_ref = 100,
      output_file = [], events = []\<rparr>"

definition answer :: "string \<Rightarrow> task_output" where
  "answer s =
     \<lparr>o_description = ''d'', raw = s, pydantic = None, json_dict = None,
      output_format = ''raw'', o_agent = ''worker''\<rparr>"

definition echo :: executor where
  "echo r a context tls = Inr (answer [''abcdefgh'' ! r])"

definition failing :: executor where
  "failing r a context tls = Inl ''boom''"

definition plain_tasks :: "ref \<Rightarrow> task" where
  "plain_tasks = (\<lambda>r. plain_task)"

definition limited_crew :: crew where
  "limited_crew = (plain_crew [0])\<lparr>max_rpm := Some 10\<rparr>"

text \<open>
  The limited crew without agents of its own: its task is assigned to an agent that the
  crew does not list.
\<close>

definition no_roster :: crew where
  "no_roster = limited_crew\<lparr>agents := []\<rparr>"

text \<open>
  The state after task 0 of the one-task crew has run and was logged.
\<close>

definition logged_state :: state where
  "logged_state =
     (plain_state (plain_crew [0]) plain_tasks)
       \<lparr>output_file :=
          [\<lparr>log_task_id = ''t'', log_expected_output = ''e'', log_output = answer ''a'',
            task_index = 0, log_inputs = Some [], was_replayed = False\<rparr>]\<rparr>"

text \<open>
  Tasks 0 and 1 are asynchronous, every other task is synchronous.
\<close>

definition two_async :: "ref \<Rightarrow> task" where
  "two_async = (\<lambda>r. plain_task)
     (0 := plain_task\<lparr>async_execution := True\<rparr>,
      1 := plain_task\<lparr>async_execution := True\<rparr>)"

text \<open>
  Two tasks with the ids \<open>a\<close> and \<open>b\<close>, and the state after both have run with the
  input \<open>topic = x\<close> and were logged.
\<close>

definition named_tasks :: "ref \<Rightarrow> task" where
  "named_tasks = (\<lambda>r. plain_task\<lparr>task_id := [''abcdefgh'' ! r]\<rparr>)"

definition entry :: "nat \<Rightarrow> string \<Rightarrow> log_entry" where
  "entry i s =
     \<lparr>log_task_id = s, log_expected_output = ''e'', log_output = answer s, task_index = i,
      log_inputs = Some [(''topic'', ''x'')], was_replayed = False\<rparr>"

definition two_logged :: state where
  "two_logged =
     (plain_state (plain_crew [0, 1]) named_tasks)
       \<lparr>output_file := [entry 0 ''a'', entry 1 ''b'']\<rparr>"

text \<open>
  A hierarchical crew with the worker roster [1] and the supplied manager 9, whose only
  task is assigned to agent 2, an agent outside the roster.
\<close>

definition hier_crew :: crew where
  "hier_crew =
     \<lparr>tasks = [0], agents = [1], process = hierarchical, manager_llm = None,
      manager_agent = Some 9, max_rpm = None, execution_logs = [], usage_metrics = None,
      inputs = None, rpm_controller = 50\<rparr>"

definition outsider_tasks :: "ref \<Rightarrow> task" where
  "outsider_tasks = (\<lambda>r. plain_task\<lparr>agent := Some 2\<rparr>)"

definition hier_state :: state where
  "hier_state = plain_state hier_crew outsider_tasks"

text \<open>
  Cloning that keeps every field of the object it copies, but for the agent of a task, which
  becomes the cloned agent of the same role.
\<close>

definition by_role :: cloning where
  "by_role =
     \<lparr>agent_copy = (\<lambda>ag. ag),
      task_copy = (\<lambda>A ags t.
        t\<lparr>agent := (case agent t of
                      None \<Rightarrow> None
                    | Some a \<Rightarrow> List.find (\<lambda>n. role (A n) = role (A a)) ags)\<rparr>),
      revalidate = (\<lambda>ag. Inr ag)\<rparr>"

text \<open>
  The agent \<open>steady\<close> gives the same answer to every task.
\<close>

definition steady :: executor where
  "steady r a context tls = Inr (answer ''done'')"

section \<open>Properties of validation\<close>

lemma for_raise_None: "for_raise f xs = None \<longleftrightarrow> (\<forall>x\<in>set xs. f x = None)"
  by (induction xs) (auto split: option.splits)

lemma scan_back_iff:
  "scan_back T ts c i \<longleftrightarrow>
     (\<exists>j<i. ts ! j = c \<and> (\<forall>k. j < k \<and> k < i \<longrightarrow> async_execution (T (ts ! k))))"
proof (induction i)
  case 0
  then show ?case by simp
next
  case (Suc i)
  show ?case
  proof (cases "ts ! i = c")
    case True
    then have "\<exists>j<Suc i. ts ! j = c \<and> (\<forall>k. j < k \<and> k < Suc i \<longrightarrow> async_execution (T (ts ! k)))"
      by (intro exI[of _ i]) auto
    with True show ?thesis by simp
  next
    case False
    show ?thesis
    proof (cases "async_execution (T (ts ! i))")
      case True
      have "(\<exists>j<Suc i. ts ! j = c \<and> (\<forall>k. j < k \<and> k < Suc i \<longrightarrow> async_execution (T (ts ! k))))
          \<longleftrightarrow> (\<exists>j<i. ts ! j = c \<and> (\<forall>k. j < k \<and> k < i \<longrightarrow> async_execution (T (ts ! k))))"
        using False True by (metis less_Suc_eq)
      with False True Suc show ?thesis by simp
    next
      case nas: False
      have "\<not> (\<exists>j<Suc i. ts ! j = c \<and> (\<forall>k. j < k \<and> k < Suc i \<longrightarrow> async_execution (T (ts ! k))))"
        using False nas by (metis less_Suc_eq)
      with False nas show ?thesis by simp
    qed
  qed
qed

lemma isl_returning: "isl (returning r s) \<longleftrightarrow> r \<noteq> None"
  by (simp add: returning_def split: option.splits)

lemma returning_Inr: "returning r s = Inr c \<Longrightarrow> c = s"
  by (simp add: returning_def split: option.splits)

lemma task_indices_snoc:
  "task_indices (ts @ [x]) c = (if c = x then Some (length ts) else task_indices ts c)"
  by (simp add: task_indices_def)

lemma task_indices_iff:
  "task_indices ts c = Some j \<longleftrightarrow>
     j < length ts \<and> ts ! j = c \<and> (\<forall>k. j < k \<and> k < length ts \<longrightarrow> ts ! k \<noteq> c)"
proof (induction ts arbitrary: j rule: rev_induct)
  case Nil
  then show ?case by (simp add: task_indices_def)
next
  case (snoc x xs)
  let ?n = "length xs"
  show ?case
  proof (cases "c = x")
    case True
    have "(j < Suc ?n \<and> (xs @ [x]) ! j = c \<and> (\<forall>k. j < k \<and> k < Suc ?n \<longrightarrow> (xs @ [x]) ! k \<noteq> c)) \<longleftrightarrow> j = ?n"
    proof
      assume a: "j < Suc ?n \<and> (xs @ [x]) ! j = c \<and> (\<forall>k. j < k \<and> k < Suc ?n \<longrightarrow> (xs @ [x]) ! k \<noteq> c)"
      show "j = ?n"
      proof (rule ccontr)
        assume "j \<noteq> ?n"
        with a have "j < ?n" by simp
        with a have "(xs @ [x]) ! ?n \<noteq> c" by (metis lessI)
        with True show False by simp
      qed
    next
      assume "j = ?n"
      with True show "j < Suc ?n \<and> (xs @ [x]) ! j = c \<and> (\<forall>k. j < k \<and> k < Suc ?n \<longrightarrow> (xs @ [x]) ! k \<noteq> c)"
        by simp
    qed
    with True show ?thesis by (auto simp: task_indices_snoc)
  next
    case False
    have "(j < Suc ?n \<and> (xs @ [x]) ! j = c \<and> (\<forall>k. j < k \<and> k < Suc ?n \<longrightarrow> (xs @ [x]) ! k \<noteq> c))
      \<longleftrightarrow> (j < ?n \<and> xs ! j = c \<and> (\<forall>k. j < k \<and> k < ?n \<longrightarrow> xs ! k \<noteq> c))" (is "?L \<longleftrightarrow> ?R")
    proof
      assume l: ?L
      have jn: "j < ?n"
      proof (rule ccontr)
        assume "\<not> j < ?n"
        with l have "j = ?n" by simp
        with l False show False by simp
      qed
      moreover have "xs ! j = c" using l jn by (simp add: nth_append)
      moreover have "\<forall>k. j < k \<and> k < ?n \<longrightarrow> xs ! k \<noteq> c"
      proof (intro allI impI)
        fix k assume k: "j < k \<and> k < ?n"
        with l have "(xs @ [x]) ! k \<noteq> c" by (metis less_SucI)
        with k show "xs ! k \<noteq> c" by (simp add: nth_append)
      qed
      ultimately show ?R by simp
    next
      assume r: ?R
      have "\<forall>k. j < k \<and> k < Suc ?n \<longrightarrow> (xs @ [x]) ! k \<noteq> c"
      proof (intro allI impI)
        fix k assume k: "j < k \<and> k < Suc ?n"
        show "(xs @ [x]) ! k \<noteq> c"
        proof (cases "k = ?n")
          case True
          with False show ?thesis by simp
        next
          case kn: False
          with k have "k < ?n" by simp
          with r k show ?thesis by (simp add: nth_append)
        qed
      qed
      with r show ?L by (simp add: nth_append)
    qed
    with False snoc show ?thesis by (simp add: task_indices_snoc)
  qed
qed

lemma for_raise_Some: "for_raise f xs \<noteq> None \<longleftrightarrow> (\<exists>x\<in>set xs. f x \<noteq> None)"
  by (simp add: for_raise_None)

lemma for_raise_if:
  "for_raise (\<lambda>x. if P x then Some (e x) else None) xs \<noteq> None \<longleftrightarrow> (\<exists>x\<in>set xs. P x)"
  by (induction xs) auto

lemma ex_enumerate:
  "(\<exists>p\<in>set (enumerate 0 xs). Q p) \<longleftrightarrow> (\<exists>i<length xs. Q (i, xs ! i))"
proof
  assume "\<exists>p\<in>set (enumerate 0 xs). Q p"
  then obtain p where p: "p \<in> set (enumerate 0 xs)" "Q p" by blast
  then have "fst p < length xs" "xs ! fst p = snd p" by (simp_all add: in_set_enumerate_eq)
  with p(2) have "fst p < length xs \<and> Q (fst p, xs ! fst p)" by simp
  then show "\<exists>i<length xs. Q (i, xs ! i)" by blast
next
  assume "\<exists>i<length xs. Q (i, xs ! i)"
  then obtain i where i: "i < length xs" "Q (i, xs ! i)" by blast
  then have "(i, xs ! i) \<in> set (enumerate 0 xs)" by (simp add: in_set_enumerate_eq)
  with i(2) show "\<exists>p\<in>set (enumerate 0 xs). Q p" by blast
qed

lemma validate_async_isl:
  "isl (validate_async_task_cannot_include_sequential_async_tasks_in_context T self) \<longleftrightarrow>
     (\<exists>i<length (tasks self). async_execution (T (tasks self ! i)) \<and>
        (\<exists>c\<in>set (task_context (T (tasks self ! i))). async_execution (T c) \<and>
           scan_back T (tasks self) c i))" (is "?L \<longleftrightarrow> ?R")
proof -
  let ?inner = "\<lambda>i r. for_raise
                (\<lambda>c. if async_execution (T c) \<and> scan_back T (tasks self) c i then
                       Some (ValueError (''Task '' @ quoted (description (T r))
                         @ '' is asynchronous and cannot include other sequential asynchronous tasks in its context.''))
                     else None)
                (task_context (T r))"
  have inner: "?inner i r \<noteq> None \<longleftrightarrow>
      (\<exists>c\<in>set (task_context (T r)). async_execution (T c) \<and> scan_back T (tasks self) c i)" for i r
    by (rule for_raise_if)
  have "?L \<longleftrightarrow> (\<exists>p\<in>set (enumerate 0 (tasks self)).
          (case p of (i, r) \<Rightarrow>
            if async_execution (T r) \<and> task_context (T r) \<noteq> [] then ?inner i r else None) \<noteq> None)"
    unfolding validate_async_task_cannot_include_sequential_async_tasks_in_context_def
      isl_returning for_raise_Some ..
  also have "\<dots> \<longleftrightarrow> (\<exists>i<length (tasks self).
         (if async_execution (T (tasks self ! i)) \<and> task_context (T (tasks self ! i)) \<noteq> []
          then ?inner i (tasks self ! i) else None) \<noteq> None)"
    by (simp only: ex_enumerate prod.case)
  also have "\<dots> \<longleftrightarrow> ?R"
    using inner by (auto split: if_splits)
  finally show ?thesis .
qed

lemma validators_return_self:
  "check_manager_llm self = Inr c \<Longrightarrow> c = self"
  "check_config self = Inr c \<Longrightarrow> c = self"
  "validate_tasks T self = Inr c \<Longrightarrow> c = self"
  "check_tasks_in_hierarchical_process_not_async T self = Inr c \<Longrightarrow> c = self"
  "validate_end_with_at_most_one_async_task T self = Inr c \<Longrightarrow> c = self"
  "validate_async_task_cannot_include_sequential_async_tasks_in_context T self = Inr c \<Longrightarrow> c = self"
  "validate_context_no_future_tasks T self = Inr c \<Longrightarrow> c = self"
  by (auto simp: check_manager_llm_def check_config_def validate_tasks_def
      check_tasks_in_hierarchical_process_not_async_def
      validate_end_with_at_most_one_async_task_def Let_def
      validate_async_task_cannot_include_sequential_async_tasks_in_context_def
      validate_context_no_future_tasks_def
      dest: returning_Inr split: if_splits option.splits)

lemma and_then_self:
  "(\<And>c. r = Inr c \<Longrightarrow> c = self) \<Longrightarrow> and_then r f = (case r of Inl e \<Rightarrow> Inl e | Inr _ \<Rightarrow> f self)"
  by (auto simp: and_then_def split: sum.splits)

lemma Crew_init_unfold:
  "Crew_init T self =
     (case check_manager_llm self of Inl e \<Rightarrow> Inl e | Inr _ \<Rightarrow>
     (case check_config self of Inl e \<Rightarrow> Inl e | Inr _ \<Rightarrow>
     (case validate_tasks T self of Inl e \<Rightarrow> Inl e | Inr _ \<Rightarrow>
     (case check_tasks_in_hierarchical_process_not_async T self of Inl e \<Rightarrow> Inl e | Inr _ \<Rightarrow>
     (case validate_end_with_at_most_one_async_task T self of Inl e \<Rightarrow> Inl e | Inr _ \<Rightarrow>
     (case validate_async_task_cannot_include_sequential_async_tasks_in_context T self of
        Inl e \<Rightarrow> Inl e
      | Inr _ \<Rightarrow> validate_context_no_future_tasks T self))))))"
  unfolding Crew_init_def
  by (simp add: and_then_self[OF validators_return_self(1)]
      and_then_self[OF validators_return_self(2)]
      and_then_self[OF validators_return_self(3)]
      and_then_self[OF validators_return_self(4)]
      and_then_self[OF validators_return_self(5)]
      and_then_self[OF validators_return_self(6)]
      cong: sum.case_cong)

lemma Crew_init_fails_async:
  "isl (validate_async_task_cannot_include_sequential_async_tasks_in_context T self)
     \<Longrightarrow> isl (Crew_init T self)"
  unfolding Crew_init_unfold by (auto split: sum.splits)

lemma Crew_init_fails_future:
  "isl (validate_context_no_future_tasks T self) \<Longrightarrow> isl (Crew_init T self)"
  unfolding Crew_init_unfold by (auto split: sum.splits)

lemma for_raise_SomeD: "for_raise f xs = Some e \<Longrightarrow> \<exists>x\<in>set xs. f x = Some e"
  by (induction xs) (auto split: option.splits)

lemma validate_async_error:
  assumes "validate_async_task_cannot_include_sequential_async_tasks_in_context T self = Inl e"
  shows "\<exists>msg. e = ValueError msg"
proof -
  let ?inner = "\<lambda>i r. for_raise
                (\<lambda>c. if async_execution (T c) \<and> scan_back T (tasks self) c i then
                       Some (ValueError (''Task '' @ quoted (description (T r))
                         @ '' is asynchronous and cannot include other sequential asynchronous tasks in its context.''))
                     else None)
                (task_context (T r))"
  from assms have "for_raise
         (\<lambda>(i, r). if async_execution (T r) \<and> task_context (T r) \<noteq> [] then ?inner i r else None)
         (enumerate 0 (tasks self)) = Some e"
    by (simp add: validate_async_task_cannot_include_sequential_async_tasks_in_context_def
        returning_def split: option.splits)
  then obtain i r where "?inner i r = Some e"
    by (auto dest!: for_raise_SomeD split: if_splits)
  then show ?thesis
    by (auto dest!: for_raise_SomeD split: if_splits)
qed

lemma Crew_init_isl:
  "isl (Crew_init T self) \<longleftrightarrow>
     isl (check_manager_llm self) \<or> isl (check_config self) \<or> isl (validate_tasks T self)
     \<or> isl (check_tasks_in_hierarchical_process_not_async T self)
     \<or> isl (validate_end_with_at_most_one_async_task T self)
     \<or> isl (validate_async_task_cannot_include_sequential_async_tasks_in_context T self)
     \<or> isl (validate_context_no_future_tasks T self)"
  unfolding Crew_init_unfold by (auto split: sum.splits)

lemma Crew_init_Inr: "Crew_init T self = Inr c \<Longrightarrow> c = self"
  unfolding Crew_init_unfold
  by (auto split: sum.splits dest: validators_return_self(7))

lemma Crew_init_async_error:
  assumes "\<not> isl (check_manager_llm self)" "\<not> isl (check_config self)"
    "\<not> isl (validate_tasks T self)"
    "\<not> isl (check_tasks_in_hierarchical_process_not_async T self)"
    "\<not> isl (validate_end_with_at_most_one_async_task T self)"
    "isl (validate_async_task_cannot_include_sequential_async_tasks_in_context T self)"
  shows "\<exists>msg. Crew_init T self = Inl (ValueError msg)"
proof -
  from assms(6) obtain e where
    e: "validate_async_task_cannot_include_sequential_async_tasks_in_context T self = Inl e"
    by (cases "validate_async_task_cannot_include_sequential_async_tasks_in_context T self") auto
  from validate_async_error[OF e] obtain msg where "e = ValueError msg" by blast
  with e assms(1-5) show ?thesis
    unfolding Crew_init_unfold by (auto split: sum.splits)
qed

text \<open>
  Claim C5, amended.  The async-context check of crew construction raises if and only if
  some asynchronous task lists, among its context dependencies, an asynchronous task that
  stands at an earlier position of the task list with no synchronous task at a position
  strictly between the two.  Construction fails if and only if this is the case or another
  of its checks raises; when the checks declared before this one pass and this one raises,
  construction fails with its \<^verbatim>\<open>ValueError\<close>.  A failed construction returns the error
  and no crew; a construction that succeeds returns the crew it was given.
\<close>

theorem async_context_isolation:
  "(isl (validate_async_task_cannot_include_sequential_async_tasks_in_context T self) \<longleftrightarrow>
      (\<exists>i<length (tasks self). \<exists>j<i.
          async_execution (T (tasks self ! i)) \<and>
          tasks self ! j \<in> set (task_context (T (tasks self ! i))) \<and>
          async_execution (T (tasks self ! j)) \<and>
          (\<forall>k. j < k \<and> k < i \<longrightarrow> async_execution (T (tasks self ! k)))))
   \<and> (isl (Crew_init T self) \<longleftrightarrow>
        isl (check_manager_llm self) \<or> isl (check_config self) \<or> isl (validate_tasks T self)
        \<or> isl (check_tasks_in_hierarchical_process_not_async T self)
        \<or> isl (validate_end_with_at_most_one_async_task T self)
        \<or> (\<exists>i<length (tasks self). \<exists>j<i.
              async_execution (T (tasks self ! i)) \<and>
              tasks self ! j \<in> set (task_context (T (tasks self ! i))) \<and>
              async_execution (T (tasks self ! j)) \<and>
              (\<forall>k. j < k \<and> k < i \<longrightarrow> async_execution (T (tasks self ! k))))
        \<or> isl (validate_context_no_future_tasks T self))
   \<and> (\<not> isl (check_manager_llm self) \<and> \<not> isl (check_config self)
        \<and> \<not> isl (validate_tasks T self)
        \<and> \<not> isl (check_tasks_in_hierarchical_process_not_async T self)
        \<and> \<not> isl (validate_end_with_at_most_one_async_task T self)
        \<and> isl (validate_async_task_cannot_include_sequential_async_tasks_in_context T self)
        \<longrightarrow> (\<exists>msg. Crew_init T self = Inl (ValueError msg)))
   \<and> (\<forall>c. Crew_init T self = Inr c \<longrightarrow> c = self)"
proof -
  have v: "isl (validate_async_task_cannot_include_sequential_async_tasks_in_context T self) \<longleftrightarrow>
      (\<exists>i<length (tasks self). \<exists>j<i.
          async_execution (T (tasks self ! i)) \<and>
          tasks self ! j \<in> set (task_context (T (tasks self ! i))) \<and>
          async_execution (T (tasks self ! j)) \<and>
          (\<forall>k. j < k \<and> k < i \<longrightarrow> async_execution (T (tasks self ! k))))"
    unfolding validate_async_isl scan_back_iff by blast
  show ?thesis
    unfolding v[symmetric]
    using Crew_init_isl[of T self] Crew_init_async_error[of self T] Crew_init_Inr[of T self]
    by blast
qed

text \<open>
  The theorem at three tasks: task 1 is asynchronous and depends on the asynchronous
  task 0 right before it; the construction fails with the \<^verbatim>\<open>ValueError\<close> of this check.
\<close>

theorem async_context_isolation_witness:
  "isl (validate_async_task_cannot_include_sequential_async_tasks_in_context async_pair
          (plain_crew [0, 1, 2]))
   \<and> (\<exists>msg. Crew_init async_pair (plain_crew [0, 1, 2]) = Inl (ValueError msg))"
proof -
  have c: "\<exists>i<length (tasks (plain_crew [0, 1, 2])). \<exists>j<i.
          async_execution (async_pair (tasks (plain_crew [0, 1, 2]) ! i)) \<and>
          tasks (plain_crew [0, 1, 2]) ! j
            \<in> set (task_context (async_pair (tasks (plain_crew [0, 1, 2]) ! i))) \<and>
          async_execution (async_pair (tasks (plain_crew [0, 1, 2]) ! j)) \<and>
          (\<forall>k. j < k \<and> k < i \<longrightarrow> async_execution (async_pair (tasks (plain_crew [0, 1, 2]) ! k)))"
    by (intro exI[of _ 1] conjI exI[of _ 0])
       (simp_all add: plain_crew_def async_pair_def plain_task_def)
  have e: "\<not> isl (check_manager_llm (plain_crew [0, 1, 2]))"
    "\<not> isl (check_config (plain_crew [0, 1, 2]))"
    "\<not> isl (validate_tasks async_pair (plain_crew [0, 1, 2]))"
    "\<not> isl (check_tasks_in_hierarchical_process_not_async async_pair (plain_crew [0, 1, 2]))"
    "\<not> isl (validate_end_with_at_most_one_async_task async_pair (plain_crew [0, 1, 2]))"
    by (simp_all add: check_manager_llm_def check_config_def validate_tasks_def
        check_tasks_in_hierarchical_process_not_async_def
        validate_end_with_at_most_one_async_task_def returning_def
        plain_crew_def async_pair_def plain_task_def)
  from c e show ?thesis
    using async_context_isolation[of async_pair "plain_crew [0, 1, 2]"] by blast
qed

text \<open>
  Claim C5 as stated fails in both directions.  The only task of the first crew is
  asynchronous and lists itself, an asynchronous task, in its context, and the crew has no
  synchronous task at all: construction succeeds.  The second crew has no asynchronous
  task, and its construction fails, for a task without an agent.
\<close>

theorem async_context_isolation_counterexample:
  "Crew_init self_async (plain_crew [0]) = Inr (plain_crew [0])
   \<and> tasks (plain_crew [0]) = [0]
   \<and> async_execution (self_async 0)
   \<and> task_context (self_async 0) = [0]
   \<and> isl (Crew_init agentless (plain_crew [0]))
   \<and> \<not> async_execution (agentless 0)"
  by (simp add: Crew_init_def and_then_def check_manager_llm_def check_config_def
      validate_tasks_def check_tasks_in_hierarchical_process_not_async_def
      validate_end_with_at_most_one_async_task_def
      validate_async_task_cannot_include_sequential_async_tasks_in_context_def
      validate_context_no_future_tasks_def returning_def task_indices_def
      plain_crew_def self_async_def agentless_def plain_task_def)

lemma validate_future_isl:
  "isl (validate_context_no_future_tasks T self) \<longleftrightarrow>
     (\<exists>r\<in>set (tasks self). \<exists>c\<in>set (task_context (T r)). \<exists>ic ir.
        task_indices (tasks self) c = Some ic \<and> task_indices (tasks self) r = Some ir \<and> ir < ic)"
  (is "?L \<longleftrightarrow> ?R")
proof -
  let ?check = "\<lambda>r c. case task_indices (tasks self) c of
                         None \<Rightarrow> None
                       | Some ic \<Rightarrow>
                           (case task_indices (tasks self) r of
                              None \<Rightarrow> None
                            | Some ir \<Rightarrow>
                                if ic > ir then
                                  Some (ValueError (''Task '' @ quoted (description (T r))
                                    @ '' has a context dependency on a future task ''
                                    @ quoted (description (T c)) @ '', which is not allowed.''))
                                else None)"
  have check: "?check r c \<noteq> None \<longleftrightarrow>
      (\<exists>ic ir. task_indices (tasks self) c = Some ic \<and> task_indices (tasks self) r = Some ir \<and> ir < ic)"
    for r c
    by (cases "task_indices (tasks self) c"; cases "task_indices (tasks self) r") simp_all
  have body: "(if task_context (T r) \<noteq> [] then for_raise (?check r) (task_context (T r)) else None) \<noteq> None
      \<longleftrightarrow> (\<exists>c\<in>set (task_context (T r)). ?check r c \<noteq> None)" for r
    by (cases "task_context (T r) = []") (simp_all only: for_raise_Some list.set if_True if_False bex_empty simp_thms)
  have "?L \<longleftrightarrow> (\<exists>r\<in>set (tasks self).
      (if task_context (T r) \<noteq> [] then for_raise (?check r) (task_context (T r)) else None) \<noteq> None)"
    unfolding validate_context_no_future_tasks_def isl_returning for_raise_Some ..
  also have "\<dots> \<longleftrightarrow> (\<exists>r\<in>set (tasks self). \<exists>c\<in>set (task_context (T r)). ?check r c \<noteq> None)"
    by (simp only: body)
  also have "\<dots> \<longleftrightarrow> ?R"
    by (simp only: check)
  finally show ?thesis .
qed

text \<open>
  Claim C6, amended.  The position of a task object in the check is the last position at
  which the list holds it.  The future-context check raises, and construction fails,
  if and only if some task's context holds a task of the list whose last position is
  strictly greater than the last position of the referencing task; for a list that holds
  no task object twice this is a reference from a position to a strictly greater one.  A
  reference to the task itself, or to a task that is not in the list, is accepted.
\<close>

theorem no_future_context:
  "(isl (validate_context_no_future_tasks T self) \<longleftrightarrow>
      (\<exists>i j. i < j \<and> j < length (tasks self) \<and>
          tasks self ! j \<in> set (task_context (T (tasks self ! i))) \<and>
          (\<forall>k. i < k \<and> k < length (tasks self) \<longrightarrow> tasks self ! k \<noteq> tasks self ! i) \<and>
          (\<forall>k. j < k \<and> k < length (tasks self) \<longrightarrow> tasks self ! k \<noteq> tasks self ! j)))
   \<and> (distinct (tasks self) \<longrightarrow>
        (isl (validate_context_no_future_tasks T self) \<longleftrightarrow>
           (\<exists>i j. i < j \<and> j < length (tasks self) \<and>
              tasks self ! j \<in> set (task_context (T (tasks self ! i))))))
   \<and> (isl (validate_context_no_future_tasks T self) \<longrightarrow> isl (Crew_init T self))"
proof -
  let ?ts = "tasks self"
  have gen: "isl (validate_context_no_future_tasks T self) \<longleftrightarrow>
      (\<exists>i j. i < j \<and> j < length ?ts \<and>
          ?ts ! j \<in> set (task_context (T (?ts ! i))) \<and>
          (\<forall>k. i < k \<and> k < length ?ts \<longrightarrow> ?ts ! k \<noteq> ?ts ! i) \<and>
          (\<forall>k. j < k \<and> k < length ?ts \<longrightarrow> ?ts ! k \<noteq> ?ts ! j))" (is "?L \<longleftrightarrow> ?R")
  proof
    assume ?L
    then obtain r c ic ir where r: "r \<in> set ?ts" and c: "c \<in> set (task_context (T r))"
      and ic: "task_indices ?ts c = Some ic" and ir: "task_indices ?ts r = Some ir" and lt: "ir < ic"
      unfolding validate_future_isl by blast
    from ic have 1: "ic < length ?ts" "?ts ! ic = c" "\<forall>k. ic < k \<and> k < length ?ts \<longrightarrow> ?ts ! k \<noteq> c"
      unfolding task_indices_iff by blast+
    from ir have 2: "ir < length ?ts" "?ts ! ir = r" "\<forall>k. ir < k \<and> k < length ?ts \<longrightarrow> ?ts ! k \<noteq> r"
      unfolding task_indices_iff by blast+
    show ?R
      using 1 2 c lt by (intro exI[of _ ir] exI[of _ ic]) simp
  next
    assume ?R
    then obtain i j where ij: "i < j" "j < length ?ts"
      and c: "?ts ! j \<in> set (task_context (T (?ts ! i)))"
      and li: "\<forall>k. i < k \<and> k < length ?ts \<longrightarrow> ?ts ! k \<noteq> ?ts ! i"
      and lj: "\<forall>k. j < k \<and> k < length ?ts \<longrightarrow> ?ts ! k \<noteq> ?ts ! j"
      by blast
    have "task_indices ?ts (?ts ! i) = Some i"
      unfolding task_indices_iff using ij li by simp
    moreover have "task_indices ?ts (?ts ! j) = Some j"
      unfolding task_indices_iff using ij lj by simp
    moreover have "?ts ! i \<in> set ?ts" using ij by simp
    ultimately show ?L
      unfolding validate_future_isl using c ij(1) by blast
  qed
  have last: "\<forall>k. i < k \<and> k < length ?ts \<longrightarrow> ?ts ! k \<noteq> ?ts ! i"
    if "distinct ?ts" "i < length ?ts" for i
    using that by (auto simp: nth_eq_iff_index_eq)
  have dist: "isl (validate_context_no_future_tasks T self) \<longleftrightarrow>
           (\<exists>i j. i < j \<and> j < length ?ts \<and> ?ts ! j \<in> set (task_context (T (?ts ! i))))"
    if d: "distinct ?ts"
  proof
    assume "isl (validate_context_no_future_tasks T self)"
    with gen show "\<exists>i j. i < j \<and> j < length ?ts \<and> ?ts ! j \<in> set (task_context (T (?ts ! i)))"
      by blast
  next
    assume "\<exists>i j. i < j \<and> j < length ?ts \<and> ?ts ! j \<in> set (task_context (T (?ts ! i)))"
    then obtain i j where ij: "i < j" "j < length ?ts"
      "?ts ! j \<in> set (task_context (T (?ts ! i)))" by blast
    from ij have "i < length ?ts" by simp
    from last[OF d this] last[OF d ij(2)] ij
    show "isl (validate_context_no_future_tasks T self)"
      unfolding gen by blast
  qed
  from gen dist Crew_init_fails_future[of T self] show ?thesis by blast
qed

text \<open>
  The theorem at two tasks, the first depending on the second: the check raises.  With the
  first task listed once more at the end its last position is 2, behind the task it
  depends on, and the check does not raise.
\<close>

theorem no_future_context_witness:
  "isl (validate_context_no_future_tasks forward_reference (plain_crew [0, 1]))
   \<and> isl (Crew_init forward_reference (plain_crew [0, 1]))
   \<and> \<not> isl (validate_context_no_future_tasks forward_reference (plain_crew [0, 1, 0]))"
proof -
  have d: "distinct (tasks (plain_crew [0, 1]))" by (simp add: plain_crew_def)
  have "\<exists>i j. i < j \<and> j < length (tasks (plain_crew [0, 1])) \<and>
          tasks (plain_crew [0, 1]) ! j
            \<in> set (task_context (forward_reference (tasks (plain_crew [0, 1]) ! i)))"
    by (intro exI[of _ 0] exI[of _ 1])
       (simp add: plain_crew_def forward_reference_def plain_task_def)
  with d have 1: "isl (validate_context_no_future_tasks forward_reference (plain_crew [0, 1]))
      \<and> isl (Crew_init forward_reference (plain_crew [0, 1]))"
    using no_future_context[of forward_reference "plain_crew [0, 1]"] by blast
  have "\<not> (\<exists>i j. i < j \<and> j < length (tasks (plain_crew [0, 1, 0])) \<and>
          tasks (plain_crew [0, 1, 0]) ! j
            \<in> set (task_context (forward_reference (tasks (plain_crew [0, 1, 0]) ! i))) \<and>
          (\<forall>k. i < k \<and> k < length (tasks (plain_crew [0, 1, 0]))
             \<longrightarrow> tasks (plain_crew [0, 1, 0]) ! k \<noteq> tasks (plain_crew [0, 1, 0]) ! i) \<and>
          (\<forall>k. j < k \<and> k < length (tasks (plain_crew [0, 1, 0]))
             \<longrightarrow> tasks (plain_crew [0, 1, 0]) ! k \<noteq> tasks (plain_crew [0, 1, 0]) ! j))"
  proof
    assume "\<exists>i j. i < j \<and> j < length (tasks (plain_crew [0, 1, 0])) \<and>
          tasks (plain_crew [0, 1, 0]) ! j
            \<in> set (task_context (forward_reference (tasks (plain_crew [0, 1, 0]) ! i))) \<and>
          (\<forall>k. i < k \<and> k < length (tasks (plain_crew [0, 1, 0]))
             \<longrightarrow> tasks (plain_crew [0, 1, 0]) ! k \<noteq> tasks (plain_crew [0, 1, 0]) ! i) \<and>
          (\<forall>k. j < k \<and> k < length (tasks (plain_crew [0, 1, 0]))
             \<longrightarrow> tasks (plain_crew [0, 1, 0]) ! k \<noteq> tasks (plain_crew [0, 1, 0]) ! j)"
    then obtain i j where ij: "i < j" "j < 3"
      and c: "[0, 1, 0] ! j \<in> set (task_context (forward_reference ([0, 1, 0::nat] ! i)))"
      and li: "\<forall>k. i < k \<and> k < 3 \<longrightarrow> [0, 1, 0::nat] ! k \<noteq> [0, 1, 0] ! i"
      by (auto simp: plain_crew_def)
    from ij have "i = 0 \<or> i = 1" by arith
    then show False
    proof
      assume "i = 0"
      with li[rule_format, of 2] show False by simp
    next
      assume "i = 1"
      with c show False by (simp add: forward_reference_def plain_task_def)
    qed
  qed
  then have 2: "\<not> isl (validate_context_no_future_tasks forward_reference (plain_crew [0, 1, 0]))"
    using no_future_context[of forward_reference "plain_crew [0, 1, 0]"] by blast
  from 1 2 show ?thesis by blast
qed

text \<open>
  Claim C6 as stated fails: the only task of this crew references itself and a task
  outside the list, neither at a strictly smaller position, and construction succeeds.
\<close>

theorem no_future_context_counterexample:
  "Crew_init self_reference (plain_crew [0]) = Inr (plain_crew [0])
   \<and> tasks (plain_crew [0]) = [0]
   \<and> task_context (self_reference 0) = [0, 7]"
  by (simp add: Crew_init_def and_then_def check_manager_llm_def check_config_def
      validate_tasks_def check_tasks_in_hierarchical_process_not_async_def
      validate_end_with_at_most_one_async_task_def
      validate_async_task_cannot_include_sequential_async_tasks_in_context_def
      validate_context_no_future_tasks_def returning_def task_indices_def
      plain_crew_def self_reference_def plain_task_def)

section \<open>Properties of the engine\<close>

lemma set_output_simps [simp]:
  "events (set_output r out st) = events st"
  "this (set_output r out st) = this st"
  "agent_objs (set_output r out st) = agent_objs st"
  "output_file (set_output r out st) = output_file st"
  "next_ref (set_output r out st) = next_ref st"
  "async_execution (task_objs (set_output r out st) r') = async_execution (task_objs st r')"
  "agent (task_objs (set_output r out st) r') = agent (task_objs st r')"
  "task_context (task_objs (set_output r out st) r') = task_context (task_objs st r')"
  "task_tools (task_objs (set_output r out st) r') = task_tools (task_objs st r')"
  "task_id (task_objs (set_output r out st) r') = task_id (task_objs st r')"
  "expected_output (task_objs (set_output r out st) r') = expected_output (task_objs st r')"
  "t_output (task_objs (set_output r out st) r') =
     (if r' = r then Some out else t_output (task_objs st r'))"
  by (simp_all add: set_output_def)

lemma set_tools_simps [simp]:
  "events (set_tools a tls st) = events st"
  "this (set_tools a tls st) = this st"
  "task_objs (set_tools a tls st) = task_objs st"
  "output_file (set_tools a tls st) = output_file st"
  "next_ref (set_tools a tls st) = next_ref st"
  "tools (agent_objs (set_tools a tls st) a') = (if a' = a then tls else tools (agent_objs st a'))"
  "allow_delegation (agent_objs (set_tools a tls st) a') = allow_delegation (agent_objs st a')"
  "token_process (agent_objs (set_tools a tls st) a') = token_process (agent_objs st a')"
  by (simp_all add: set_tools_def)

lemma store_execution_log_simps [simp]:
  "events (store_execution_log r out i rep st) =
     events st @ [UpdateFile i (execution_log st r out i rep)]"
  "task_objs (store_execution_log r out i rep st) = task_objs st"
  "agent_objs (store_execution_log r out i rep st) = agent_objs st"
  "next_ref (store_execution_log r out i rep st) = next_ref st"
  "output_file (store_execution_log r out i rep st) =
     overwrite_or_append i (execution_log st r out i rep) (output_file st)"
  "this (store_execution_log r out i rep st) =
     (this st)\<lparr>execution_logs :=
        overwrite_or_append i (execution_log st r out i rep) (execution_logs (this st))\<rparr>"
  by (simp_all add: store_execution_log_def Let_def)

lemma wire_task_delegation_simps [simp]:
  "events (wire_task_delegation r st) = events st"
  "this (wire_task_delegation r st) = this st"
  "agent_objs (wire_task_delegation r st) = agent_objs st"
  "output_file (wire_task_delegation r st) = output_file st"
  "next_ref (wire_task_delegation r st) = next_ref st"
  "async_execution (task_objs (wire_task_delegation r st) r') = async_execution (task_objs st r')"
  "agent (task_objs (wire_task_delegation r st) r') = agent (task_objs st r')"
  "task_context (task_objs (wire_task_delegation r st) r') = task_context (task_objs st r')"
  "t_output (task_objs (wire_task_delegation r st) r') = t_output (task_objs st r')"
  "task_id (task_objs (wire_task_delegation r st) r') = task_id (task_objs st r')"
  "expected_output (task_objs (wire_task_delegation r st) r') = expected_output (task_objs st r')"
  by (simp_all add: wire_task_delegation_def Let_def split: option.splits)

lemma wire_manager_tools_simps [simp]:
  "events (wire_manager_tools r m st) = events st"
  "this (wire_manager_tools r m st) = this st"
  "task_objs (wire_manager_tools r m st) = task_objs st"
  "output_file (wire_manager_tools r m st) = output_file st"
  "next_ref (wire_manager_tools r m st) = next_ref st"
  "allow_delegation (agent_objs (wire_manager_tools r m st) a') = allow_delegation (agent_objs st a')"
  "token_process (agent_objs (wire_manager_tools r m st) a') = token_process (agent_objs st a')"
  by (simp_all add: wire_manager_tools_def Let_def split: option.splits prod.splits)

lemma wire_simps [simp]:
  "events (wire r m st) = events st"
  "this (wire r m st) = this st"
  "output_file (wire r m st) = output_file st"
  "next_ref (wire r m st) = next_ref st"
  "async_execution (task_objs (wire r m st) r') = async_execution (task_objs st r')"
  "agent (task_objs (wire r m st) r') = agent (task_objs st r')"
  "task_context (task_objs (wire r m st) r') = task_context (task_objs st r')"
  "t_output (task_objs (wire r m st) r') = t_output (task_objs st r')"
  "task_id (task_objs (wire r m st) r') = task_id (task_objs st r')"
  "expected_output (task_objs (wire r m st) r') = expected_output (task_objs st r')"
  "allow_delegation (agent_objs (wire r m st) a') = allow_delegation (agent_objs st a')"
  "token_process (agent_objs (wire r m st) a') = token_process (agent_objs st a')"
  by (simp_all add: wire_def)

lemma agent_to_use_wire [simp]:
  "agent_to_use (wire r' m' st) r m = agent_to_use st r m"
  by (simp add: agent_to_use_def)

lemma set_context_wire [simp]:
  "set_context (wire r' m' st) r outs = set_context st r outs"
  by (simp add: set_context_def aggregate_raw_outputs_from_tasks_def map_filter_def)

lemma state_of_simps [simp]:
  "state_of (Inl (e, st)) = st"
  "state_of (Inr (x, st)) = st"
  by (simp_all add: state_of_def)

lemma evolves_refl [simp]: "evolves P st st"
  by (simp add: evolves_def)

lemma evolves_trans:
  "evolves P st st1 \<Longrightarrow> evolves P st1 st2 \<Longrightarrow> evolves P st st2"
  unfolding evolves_def
  apply (elim conjE exE)
  apply (intro conjI)
  subgoal for new new' by (rule exI[of _ "new @ new'"]) simp
  subgoal by (metis (no_types, lifting) task.surjective task.update_convs(7) task.update_convs(8))
  subgoal by (metis (no_types, lifting) agent.surjective agent.update_convs(5))
  subgoal by (metis (no_types, lifting) crew.surjective crew.update_convs(7))
  subgoal by simp
  done

lemma evolves_mono: "evolves P st st' \<Longrightarrow> (\<And>e. P e \<Longrightarrow> Q e) \<Longrightarrow> evolves Q st st'"
  unfolding evolves_def by (auto simp: list_all_iff)

lemma evolves_tasks:
  assumes "evolves P st st'"
  shows "async_execution (task_objs st' r) = async_execution (task_objs st r)"
    and "agent (task_objs st' r) = agent (task_objs st r)"
    and "task_context (task_objs st' r) = task_context (task_objs st r)"
    and "task_id (task_objs st' r) = task_id (task_objs st r)"
    and "expected_output (task_objs st' r) = expected_output (task_objs st r)"
    and "description (task_objs st' r) = description (task_objs st r)"
proof -
  from assms have eq: "task_objs st' r = (task_objs st r)
      \<lparr>task_tools := task_tools (task_objs st' r), t_output := t_output (task_objs st' r)\<rparr>"
    unfolding evolves_def by blast
  show "async_execution (task_objs st' r) = async_execution (task_objs st r)"
    and "agent (task_objs st' r) = agent (task_objs st r)"
    and "task_context (task_objs st' r) = task_context (task_objs st r)"
    and "task_id (task_objs st' r) = task_id (task_objs st r)"
    and "expected_output (task_objs st' r) = expected_output (task_objs st r)"
    and "description (task_objs st' r) = description (task_objs st r)"
    by (subst eq, simp)+
qed

lemma evolves_agents:
  assumes "evolves P st st'"
  shows "allow_delegation (agent_objs st' a) = allow_delegation (agent_objs st a)"
    and "token_process (agent_objs st' a) = token_process (agent_objs st a)"
    and "role (agent_objs st' a) = role (agent_objs st a)"
proof -
  from assms have eq: "agent_objs st' a = (agent_objs st a)\<lparr>tools := tools (agent_objs st' a)\<rparr>"
    unfolding evolves_def by blast
  show "allow_delegation (agent_objs st' a) = allow_delegation (agent_objs st a)"
    and "token_process (agent_objs st' a) = token_process (agent_objs st a)"
    and "role (agent_objs st' a) = role (agent_objs st a)"
    by (subst eq, simp)+
qed

lemma evolves_crew:
  assumes "evolves P st st'"
  shows "tasks (this st') = tasks (this st)"
    and "agents (this st') = agents (this st)"
    and "process (this st') = process (this st)"
    and "manager_agent (this st') = manager_agent (this st)"
    and "max_rpm (this st') = max_rpm (this st)"
    and "inputs (this st') = inputs (this st)"
    and "usage_metrics (this st') = usage_metrics (this st)"
    and "next_ref st' = next_ref st"
proof -
  from assms have eq: "this st' = (this st)\<lparr>execution_logs := execution_logs (this st')\<rparr>"
    and n: "next_ref st' = next_ref st"
    unfolding evolves_def by blast+
  show "tasks (this st') = tasks (this st)"
    and "agents (this st') = agents (this st)"
    and "process (this st') = process (this st)"
    and "manager_agent (this st') = manager_agent (this st)"
    and "max_rpm (this st') = max_rpm (this st)"
    and "inputs (this st') = inputs (this st)"
    and "usage_metrics (this st') = usage_metrics (this st)"
    by (subst eq, simp)+
  show "next_ref st' = next_ref st" by (rule n)
qed

lemma evolves_events:
  "evolves P st st' \<Longrightarrow> \<exists>new. events st' = events st @ new \<and> list_all P new"
  unfolding evolves_def by blast

lemma evolves_set_output [simp]: "evolves P st (set_output r out st)"
  by (simp add: evolves_def set_output_def)

lemma evolves_set_tools [simp]: "evolves P st (set_tools a tls st)"
  by (simp add: evolves_def set_tools_def)

lemma evolves_wire_task_delegation [simp]: "evolves P st (wire_task_delegation r st)"
  by (simp add: evolves_def wire_task_delegation_def Let_def split: option.splits)

lemma evolves_wire_manager_tools [simp]: "evolves P st (wire_manager_tools r m st)"
  unfolding wire_manager_tools_def Let_def
  by (auto split: option.splits prod.splits intro: evolves_trans[OF evolves_set_tools evolves_set_tools])

lemma evolves_event: "P e \<Longrightarrow> evolves P st (st\<lparr>events := events st @ [e]\<rparr>)"
  by (simp add: evolves_def)

lemma evolves_store_execution_log:
  "P (UpdateFile i (execution_log st r out i rep)) \<Longrightarrow> evolves P st (store_execution_log r out i rep st)"
  by (simp add: evolves_def store_execution_log_def Let_def)

lemma evolves_resolve_futures:
  "(\<And>e. is_update e \<Longrightarrow> P e) \<Longrightarrow> evolves P st (state_of (resolve_futures fs rep acc st))"
proof (induction fs arbitrary: acc st)
  case Nil
  then show ?case by simp
next
  case (Cons f fs)
  obtain r res i where f: "f = (r, res, i)" by (cases f)
  show ?case
  proof (cases res)
    case (Inl msg)
    with f show ?thesis by simp
  next
    case (Inr out)
    have "evolves P st (store_execution_log r out i rep (set_output r out st))"
      by (rule evolves_trans[OF evolves_set_output evolves_store_execution_log]) (simp add: Cons.prems)
    moreover have "evolves P (store_execution_log r out i rep (set_output r out st))
       (state_of (resolve_futures fs rep (acc @ [out]) (store_execution_log r out i rep (set_output r out st))))"
      by (rule Cons.IH) (rule Cons.prems)
    ultimately show ?thesis using f Inr by (simp add: evolves_trans)
  qed
qed

lemma evolves_flush:
  "(\<And>e. is_update e \<Longrightarrow> P e) \<Longrightarrow> evolves P st (state_of (flush rep (L, st)))"
  using evolves_resolve_futures[of P st "futures L" rep "[]"]
  by (auto simp: flush_def process_async_tasks_def split: sum.splits)

lemma evolves_execute_sync:
  "P (ExecuteSync i r a c tls) \<Longrightarrow> evolves P st (state_of (execute_sync exec i r a c tls st))"
  unfolding execute_sync_def Let_def
  by (auto split: sum.splits intro: evolves_event evolves_trans[OF evolves_event evolves_set_output])

lemma evolves_execute_async:
  "P (ExecuteAsync i r a c tls) \<Longrightarrow> evolves P st (snd (execute_async exec i r a c tls st))"
  unfolding execute_async_def by (auto intro: evolves_event)

lemma step_event_simps [simp]:
  "step_event i (UpdateFile j l)"
  "step_event i (ExecuteSync i r a c t)"
  "step_event i (ExecuteAsync i r a c t)"
  "is_update e \<Longrightarrow> step_event i e"
  by (simp_all add: step_event_def)

lemma evolves_dispatch_task:
  "evolves (step_event i) st (state_of (dispatch_task exec m (L, st) (i, r)))"
proof -
  let ?st = "wire r m st"
  have w: "evolves (step_event i) st ?st"
    unfolding wire_def
    by (rule evolves_trans[OF evolves_wire_task_delegation evolves_wire_manager_tools])
  show ?thesis
  proof (cases "async_execution (task_objs ?st r)")
    case True
    show ?thesis
    proof (cases "agent_to_use ?st r m")
      case None
      with True w show ?thesis by (simp add: dispatch_task_def Let_def)
    next
      case (Some a)
      have "evolves (step_event i) ?st
              (snd (execute_async exec i r (Some a) (set_context ?st r (task_outputs L))
                 (tools (agent_objs ?st a)) ?st))"
        by (rule evolves_execute_async) simp
      with w have "evolves (step_event i) st
              (snd (execute_async exec i r (Some a) (set_context ?st r (task_outputs L))
                 (tools (agent_objs ?st a)) ?st))"
        by (rule evolves_trans)
      with True Some show ?thesis
        by (simp add: dispatch_task_def Let_def case_prod_beta)
    qed
  next
    case False
    have f: "evolves (step_event i) ?st (state_of (flush False (L, ?st)))"
      by (rule evolves_flush) simp
    show ?thesis
    proof (cases "flush False (L, ?st)")
      case (Inl e)
      with f w False show ?thesis
        by (cases e) (auto simp: dispatch_task_def Let_def intro: evolves_trans)
    next
      case (Inr p)
      obtain L1 st1 where p: "p = (L1, st1)" by (cases p)
      from f Inr p have f1: "evolves (step_event i) ?st st1" by simp
      with w have w1: "evolves (step_event i) st st1" by (rule evolves_trans)
      show ?thesis
      proof (cases "agent_to_use st1 r m")
        case None
        with False Inr p w1 show ?thesis by (simp add: dispatch_task_def Let_def)
      next
        case (Some a)
        let ?x = "execute_sync exec i r (Some a) (set_context st1 r (task_outputs L1))
                    (tools (agent_objs st1 a)) st1"
        have x: "evolves (step_event i) st1 (state_of ?x)"
          by (rule evolves_execute_sync) simp
        show ?thesis
        proof (cases ?x)
          case (Inl e)
          with x w1 False Inr p Some show ?thesis
            by (cases e) (auto simp: dispatch_task_def Let_def intro: evolves_trans)
        next
          case xr: (Inr q)
          obtain out st2 where q: "q = (out, st2)" by (cases q)
          from x xr q have "evolves (step_event i) st1 st2" by simp
          with w1 have "evolves (step_event i) st st2" by (rule evolves_trans)
          moreover have "evolves (step_event i) st2 (store_execution_log r out i False st2)"
            by (rule evolves_store_execution_log) simp
          ultimately have "evolves (step_event i) st (store_execution_log r out i False st2)"
            by (rule evolves_trans)
          with False Inr p Some xr q show ?thesis
            by (simp add: dispatch_task_def Let_def)
        qed
      qed
    qed
  qed
qed

lemma evolves_for_tasks:
  assumes "\<And>i r L st. (i, r) \<in> set xs \<Longrightarrow> evolves (P i) st (state_of (body (L, st) (i, r)))"
    and "\<And>i r e. (i, r) \<in> set xs \<Longrightarrow> P i e \<Longrightarrow> Q e"
  shows "evolves Q st (state_of (for_tasks body (L, st) xs))"
  using assms
proof (induction xs arbitrary: L st)
  case Nil
  then show ?case by simp
next
  case (Cons x xs)
  obtain i r where x: "x = (i, r)" by (cases x)
  have mem: "(i, r) \<in> set (x # xs)" using x by simp
  have "evolves (P i) st (state_of (body (L, st) (i, r)))"
    by (rule Cons.prems(1)[OF mem])
  then have step: "evolves Q st (state_of (body (L, st) (i, r)))"
    by (rule evolves_mono) (rule Cons.prems(2)[OF mem])
  show ?case
  proof (cases "body (L, st) (i, r)")
    case (Inl e)
    with step x show ?thesis by (cases e) simp
  next
    case (Inr s)
    obtain L1 st1 where s: "s = (L1, st1)" by (cases s)
    have "evolves Q st1 (state_of (for_tasks body (L1, st1) xs))"
    proof (rule Cons.IH)
      show "evolves (P i) st (state_of (body (L, st) (i, r)))" if "(i, r) \<in> set xs" for i r L st
        using Cons.prems(1)[of i r st L] that by simp
      show "Q e" if "(i, r) \<in> set xs" "P i e" for i r e
        using Cons.prems(2)[of i r e] that by simp
    qed
    with step Inr s x show ?thesis by (auto intro: evolves_trans)
  qed
qed

lemma evolves_dispatch_loop:
  "evolves (\<lambda>e. is_update e \<or> executed_at e \<noteq> None) st
     (state_of (for_tasks (dispatch_task exec m) (L, st) (enumerate n ts)))"
  by (rule evolves_for_tasks[where P = step_event])
     (auto simp: evolves_dispatch_task step_event_def)

lemma evolves_dispatch_loop_flush:
  "evolves (\<lambda>e. is_update e \<or> executed_at e \<noteq> None) st (state_of (dispatch_loop exec ts m st))"
proof (cases "for_tasks (dispatch_task exec m) (\<lparr>task_outputs = [], futures = []\<rparr>, st) (enumerate 0 ts)")
  case (Inl e)
  with evolves_dispatch_loop[of st exec m "\<lparr>task_outputs = [], futures = []\<rparr>" 0 ts]
  show ?thesis by (simp add: dispatch_loop_def)
next
  case (Inr p)
  obtain L st1 where p: "p = (L, st1)" by (cases p)
  from Inr p evolves_dispatch_loop[of st exec m "\<lparr>task_outputs = [], futures = []\<rparr>" 0 ts]
  have "evolves (\<lambda>e. is_update e \<or> executed_at e \<noteq> None) st st1" by simp
  moreover have "evolves (\<lambda>e. is_update e \<or> executed_at e \<noteq> None) st1 (state_of (flush False (L, st1)))"
    by (rule evolves_flush) simp
  ultimately show ?thesis using Inr p by (simp add: dispatch_loop_def evolves_trans)
qed

lemma stop_count_append [simp]: "stop_count (xs @ ys) = stop_count xs + stop_count ys"
  by (simp add: stop_count_def)

lemma stop_count_simps [simp]:
  "stop_count [] = 0"
  "stop_count [StopRpmCounter c] = 1"
  "stop_count [EndCrew s] = 0"
  by (simp_all add: stop_count_def)

lemma stop_count_free:
  "list_all P new \<Longrightarrow> (\<And>e. P e \<Longrightarrow> \<not> is_stop e) \<Longrightarrow> stop_count new = 0"
  by (induction new) (auto simp: stop_count_def)

lemma evolves_stop_count:
  assumes "evolves P st st'" and "\<And>e. P e \<Longrightarrow> \<not> is_stop e"
  shows "stop_count (events st') = stop_count (events st)"
proof -
  from assms(1) obtain new where "events st' = events st @ new" "list_all P new"
    using evolves_events by blast
  with assms(2) show ?thesis by (simp add: stop_count_free[of P])
qed

lemma loop_event_not_stop: "is_update e \<or> executed_at e \<noteq> None \<Longrightarrow> \<not> is_stop e"
  by (cases e) auto

lemma finish_execution_simps [simp]:
  "stop_count (events (finish_execution s st)) =
     stop_count (events st) + (if truthy (max_rpm (this st)) then 1 else 0)"
  "this (finish_execution s st) = this st"
  "task_objs (finish_execution s st) = task_objs st"
  "agent_objs (finish_execution s st) = agent_objs st"
  "output_file (finish_execution s st) = output_file st"
  by (simp_all add: finish_execution_def Let_def)

lemma execute_tasks_stop_count:
  "stop_count (events (state_of (execute_tasks exec ts m st))) =
     stop_count (events st)
       + (if \<not> isl (execute_tasks exec ts m st) \<and> truthy (max_rpm (this st)) then 1 else 0)"
proof -
  have ev: "evolves (\<lambda>e. is_update e \<or> executed_at e \<noteq> None) st (state_of (dispatch_loop exec ts m st))"
    by (rule evolves_dispatch_loop_flush)
  show ?thesis
  proof (cases "dispatch_loop exec ts m st")
    case (Inl e)
    with ev evolves_stop_count[OF _ loop_event_not_stop] show ?thesis
      by (cases e) (simp add: execute_tasks_def)
  next
    case (Inr p)
    obtain L st2 where p: "p = (L, st2)" by (cases p)
    from ev Inr p have e2: "evolves (\<lambda>e. is_update e \<or> executed_at e \<noteq> None) st st2" by simp
    then have sc: "stop_count (events st2) = stop_count (events st)"
      by (rule evolves_stop_count) (rule loop_event_not_stop)
    have rpm: "max_rpm (this st2) = max_rpm (this st)"
      using e2 by (rule evolves_crew)
    show ?thesis
      using Inr p sc rpm by (cases "task_outputs L") (simp_all add: execute_tasks_def Let_def)
  qed
qed

lemma create_manager_agent_Inr:
  assumes "create_manager_agent st = Inr (m, st')"
  shows "events st' = events st" "tasks (this st') = tasks (this st)"
    "max_rpm (this st') = max_rpm (this st)" "process (this st') = process (this st)"
    "agents (this st') = agents (this st)" "inputs (this st') = inputs (this st)"
    "output_file st' = output_file st" "task_objs st' = task_objs st"
    "manager_agent (this st') = Some m"
  using assms
  by (auto simp: create_manager_agent_def Let_def set_tools_def split: option.splits if_splits)

lemma create_manager_agent_Inl:
  assumes "create_manager_agent st = Inl (e, st')"
  shows "events st' = events st" "this st' = this st" "output_file st' = output_file st"
    "task_objs st' = task_objs st"
  using assms
  by (auto simp: create_manager_agent_def Let_def set_tools_def split: option.splits if_splits)

lemma run_process_stop_count:
  "stop_count (events (state_of (run_process exec st))) =
     stop_count (events st)
       + (if \<not> isl (run_process exec st) \<and> truthy (max_rpm (this st)) then 1 else 0)"
proof (cases "process (this st)")
  case sequential
  then show ?thesis
    using execute_tasks_stop_count[of exec "tasks (this st)" None
        "st\<lparr>this := (this st)\<lparr>execution_logs := []\<rparr>\<rparr>"]
    by (simp add: run_process_def run_sequential_process_def Let_def)
next
  case hierarchical
  let ?st1 = "st\<lparr>this := (this st)\<lparr>execution_logs := []\<rparr>\<rparr>"
  show ?thesis
  proof (cases "create_manager_agent ?st1")
    case (Inl p)
    obtain e st' where p: "p = (e, st')" by (cases p)
    from Inl p have "events st' = events ?st1" by (simp add: create_manager_agent_Inl)
    with hierarchical Inl p show ?thesis
      by (simp add: run_process_def run_hierarchical_process_def Let_def)
  next
    case (Inr p)
    obtain m st2 where p: "p = (m, st2)" by (cases p)
    from Inr p have "events st2 = events ?st1" "max_rpm (this st2) = max_rpm (this ?st1)"
      by (simp_all add: create_manager_agent_Inr)
    with hierarchical Inr p show ?thesis
      using execute_tasks_stop_count[of exec "tasks (this st2)" "Some m" st2]
      by (simp add: run_process_def run_hierarchical_process_def Let_def)
  qed
qed

lemma flush_futures: "flush rep (L, st) = Inr (L1, st1) \<Longrightarrow> futures L1 = []"
  by (auto simp: flush_def split: if_splits sum.splits)

lemma flush_shape:
  assumes "flush rep (L, st) = Inr (L1, st1)"
  shows "agent (task_objs st1 r) = agent (task_objs st r)"
    and "async_execution (task_objs st1 r) = async_execution (task_objs st r)"
    and "task_context (task_objs st1 r) = task_context (task_objs st r)"
    and "manager_agent (this st1) = manager_agent (this st)"
proof -
  have "evolves is_update st (state_of (flush rep (L, st)))" by (rule evolves_flush)
  with assms have e: "evolves is_update st st1" by simp
  show "agent (task_objs st1 r) = agent (task_objs st r)"
    and "async_execution (task_objs st1 r) = async_execution (task_objs st r)"
    and "task_context (task_objs st1 r) = task_context (task_objs st r)"
    using e by (rule evolves_tasks)+
  show "manager_agent (this st1) = manager_agent (this st)"
    using e by (rule evolves_crew)
qed






lemma replay_from_task_Inr:
  assumes "replay_from_task exec tid ins st = Inr (co, st')"
  shows "\<exists>k st3 L st5 final. find_task_index tid (output_file st) = Some k \<and>
           replay_loop exec (output_file st) k st3 = Inr (L, st5) \<and>
           task_outputs L = [final] \<and>
           co_raw co = raw final \<and> co_pydantic co = pydantic final \<and>
           co_json_dict co = json_dict final"
  using assms
  unfolding replay_from_task_def Let_def
  by (auto simp: crew_result_def split: option.splits sum.splits list.splits if_splits; blast)



lemmas run_defs =
  execute_tasks_def dispatch_loop_def dispatch_task_def flush_def enumerate_eq_zip
  wire_def wire_task_delegation_def wire_manager_tools_def agent_to_use_def set_context_def
  execute_sync_def
  execute_async_def process_async_tasks_def
  aggregate_raw_outputs_from_task_outputs_def aggregate_raw_outputs_from_tasks_def
  set_output_def store_execution_log_def execution_log_def overwrite_or_append_def
  finish_execution_def truthy_def crew_result_def calculate_usage_metrics_def
  run_process_def run_sequential_process_def run_hierarchical_process_def
  create_manager_agent_def set_tools_def get_delegation_tools_def
  replay_from_task_def replay_loop_def replay_task_def replay_inputs_def stored_task_output_def
  kickoff_def prepare_agent_def Let_def

lemmas example_defs =
  plain_state_def plain_crew_def plain_task_def plain_tasks_def worker_def echo_def failing_def
  answer_def limited_crew_def logged_state_def two_async_def named_tasks_def entry_def
  two_logged_def hier_crew_def outsider_tasks_def hier_state_def by_role_def steady_def
  no_roster_def self_async_def agentless_def


lemma foldl_prepare_agent_this [simp]:
  "this (foldl prepare_agent st as) = this st"
  by (induction as arbitrary: st) (simp_all add: prepare_agent_def)




lemma dispatch_async_eq:
  assumes "async_execution (task_objs st r)" "agent (task_objs st r) = Some g"
  shows "dispatch_task exec m (L, st) (i, r) =
     Inr (L\<lparr>futures := futures L @
              [(r, exec r (Some g) (set_context st r (task_outputs L)) (tools (agent_objs (wire r m st) g)), i)]\<rparr>,
          (wire r m st)\<lparr>events := events st @
              [ExecuteAsync i r (Some g) (set_context st r (task_outputs L))
                 (tools (agent_objs (wire r m st) g))]\<rparr>)"
  using assms by (simp add: dispatch_task_def Let_def agent_to_use_def execute_async_def)

lemma dispatch_sync_eq:
  assumes "\<not> async_execution (task_objs st r)" "agent (task_objs st r) = Some g"
    and "flush False (L, wire r m st) = Inr (L1, st1)"
    and "exec r (Some g) (set_context st1 r (task_outputs L1)) (tools (agent_objs st1 g)) = Inr out"
  shows "dispatch_task exec m (L, st) (i, r) =
     Inr (L1\<lparr>task_outputs := [out]\<rparr>,
          store_execution_log r out i False
            (set_output r out (st1\<lparr>events := events st1 @
               [ExecuteSync i r (Some g) (set_context st1 r (task_outputs L1)) (tools (agent_objs st1 g))]\<rparr>)))"
proof -
  have "agent (task_objs st1 r) = agent (task_objs (wire r m st) r)"
    using assms(3) by (rule flush_shape)
  then have "agent_to_use st1 r m = Some g" using assms(2) by (simp add: agent_to_use_def)
  with assms show ?thesis
    by (simp add: dispatch_task_def Let_def execute_sync_def)
qed

lemma flush_two:
  assumes "futures L = [(a, Inr oa, i), (b, Inr ob, j)]"
  shows "flush rep (L, st) =
     Inr (\<lparr>task_outputs = [oa, ob], futures = []\<rparr>,
          store_execution_log b ob j rep (set_output b ob
            (store_execution_log a oa i rep (set_output a oa st))))"
  using assms by (simp add: flush_def process_async_tasks_def)

lemma exec_succeeds:
  assumes "\<forall>r g ctx tls. \<not> isl (exec r g ctx tls)"
  obtains out where "exec r g ctx tls = Inr out"
proof -
  from assms have "\<not> isl (exec r g ctx tls)" by blast
  then show ?thesis using that by (cases "exec r g ctx tls") auto
qed

lemma finish_execution_events:
  "\<exists>fin. events (finish_execution s st) = events st @ fin"
  by (simp add: finish_execution_def Let_def)

lemma finish_execution_file [simp]:
  "output_file (finish_execution s st) = output_file st"
  by (simp add: finish_execution_def Let_def)


section \<open>The rolling list and the calls made\<close>

lemma context_ok_update [simp]: "is_update e \<Longrightarrow> context_ok T pre e"
  by (cases e) simp_all

lemma contexts_ok_Nil [simp]: "contexts_ok T []"
  by (simp add: contexts_ok_def)

lemma contexts_ok_snoc:
  "contexts_ok T (evs @ [e]) \<longleftrightarrow> contexts_ok T evs \<and> context_ok T evs e"
proof
  assume a: "contexts_ok T (evs @ [e])"
  have "contexts_ok T evs"
    unfolding contexts_ok_def
  proof (intro allI impI)
    fix n assume n: "n < length evs"
    with a have "context_ok T (take n (evs @ [e])) ((evs @ [e]) ! n)"
      unfolding contexts_ok_def by simp
    with n show "context_ok T (take n evs) (evs ! n)" by (simp add: nth_append)
  qed
  moreover have "length evs < length (evs @ [e])" by simp
  with a have "context_ok T (take (length evs) (evs @ [e])) ((evs @ [e]) ! length evs)"
    unfolding contexts_ok_def by blast
  then have "context_ok T evs e" by simp
  ultimately show "contexts_ok T evs \<and> context_ok T evs e" by simp
next
  assume a: "contexts_ok T evs \<and> context_ok T evs e"
  show "contexts_ok T (evs @ [e])"
    unfolding contexts_ok_def
  proof (intro allI impI)
    fix n assume n: "n < length (evs @ [e])"
    show "context_ok T (take n (evs @ [e])) ((evs @ [e]) ! n)"
    proof (cases "n < length evs")
      case True
      with a show ?thesis by (simp add: contexts_ok_def nth_append)
    next
      case False
      with n have "n = length evs" by simp
      with a show ?thesis by simp
    qed
  qed
qed

lemma contexts_ok_append_other:
  "list_all (\<lambda>e. executed_at e = None) ups \<Longrightarrow> contexts_ok T (evs @ ups) \<longleftrightarrow> contexts_ok T evs"
proof (induction ups rule: rev_induct)
  case Nil
  then show ?case by simp
next
  case (snoc u ups)
  then have "context_ok T (evs @ ups) u" by (cases u) simp_all
  with snoc show ?case
    using contexts_ok_snoc[of T "evs @ ups" u] by simp
qed

lemma is_update_not_executed: "is_update e \<Longrightarrow> executed_at e = None"
  by (cases e) simp_all

lemma contexts_ok_append_updates:
  "list_all is_update ups \<Longrightarrow> contexts_ok T (evs @ ups) \<longleftrightarrow> contexts_ok T evs"
  by (rule contexts_ok_append_other) (auto simp: list_all_iff is_update_not_executed)

lemma all_flushed_simps [simp]:
  "all_flushed [] = []"
  "all_flushed (UpdateFile i l # evs) = log_output l # all_flushed evs"
  "all_flushed (xs @ ys) = all_flushed xs @ all_flushed ys"
  by (simp_all add: all_flushed_def map_filter_def)

lemma scan_updates:
  "list_all is_update ups \<Longrightarrow> ups \<noteq> [] \<Longrightarrow>
     foldl batch_scan (B, b) ups = ((if b then B else []) @ all_flushed ups, True)"
proof (induction ups arbitrary: B b)
  case Nil
  then show ?case by simp
next
  case (Cons u us)
  from Cons.prems obtain i l where u: "u = UpdateFile i l" by (cases u) simp_all
  show ?case
  proof (cases "us = []")
    case True
    with u show ?thesis by simp
  next
    case False
    with Cons.prems have "foldl batch_scan ((if b then B else []) @ [log_output l], True) us
        = (((if b then B else []) @ [log_output l]) @ all_flushed us, True)"
      using Cons.IH[of "(if b then B else []) @ [log_output l]" True] by simp
    with u show ?thesis by simp
  qed
qed

lemma resolve_futures_trace:
  "\<exists>ups. events (state_of (resolve_futures fs rep acc s)) = events s @ ups \<and> list_all is_update ups \<and>
     (\<forall>outs s'. resolve_futures fs rep acc s = Inr (outs, s') \<longrightarrow>
        outs = acc @ all_flushed ups \<and> (fs \<noteq> [] \<longrightarrow> ups \<noteq> []))"
proof (induction fs arbitrary: acc s)
  case Nil
  show ?case by (rule exI[of _ "[]"]) simp
next
  case (Cons f fs)
  obtain r res i where f: "f = (r, res, i)" by (cases f)
  show ?case
  proof (cases res)
    case (Inl msg)
    with f show ?thesis by (intro exI[of _ "[]"]) simp
  next
    case (Inr out)
    let ?s1 = "store_execution_log r out i rep (set_output r out s)"
    let ?u = "UpdateFile i (execution_log (set_output r out s) r out i rep)"
    from Cons.IH[of "acc @ [out]" ?s1] obtain ups where
      ups: "events (state_of (resolve_futures fs rep (acc @ [out]) ?s1)) = events ?s1 @ ups"
        "list_all is_update ups"
        "\<forall>outs s'. resolve_futures fs rep (acc @ [out]) ?s1 = Inr (outs, s') \<longrightarrow>
           outs = (acc @ [out]) @ all_flushed ups"
      by blast
    have lo: "log_output (execution_log (set_output r out s) r out i rep) = out"
      by (simp add: execution_log_def Let_def)
    show ?thesis
      using f Inr ups lo by (intro exI[of _ "?u # ups"]) simp
  qed
qed

lemma flush_trace:
  "\<exists>ups. events (state_of (flush rep (L, s))) = events s @ ups \<and> list_all is_update ups \<and>
     (\<forall>L1 s1. flush rep (L, s) = Inr (L1, s1) \<longrightarrow>
        futures L1 = [] \<and>
        (if futures L = [] then L1 = L \<and> ups = []
         else task_outputs L1 = all_flushed ups \<and> ups \<noteq> []))"
proof (cases "futures L = []")
  case True
  then show ?thesis by (intro exI[of _ "[]"]) (simp add: flush_def)
next
  case False
  from resolve_futures_trace[of "futures L" rep "[]" s] obtain ups where
    ups: "events (state_of (resolve_futures (futures L) rep [] s)) = events s @ ups"
      "list_all is_update ups"
      "\<forall>outs s'. resolve_futures (futures L) rep [] s = Inr (outs, s') \<longrightarrow>
        outs = [] @ all_flushed ups \<and> (futures L \<noteq> [] \<longrightarrow> ups \<noteq> [])"
    by blast
  show ?thesis
  proof (cases "resolve_futures (futures L) rep [] s")
    case (Inl e)
    with False ups show ?thesis
      by (intro exI[of _ ups]) (cases e, simp add: flush_def process_async_tasks_def)
  next
    case (Inr p)
    obtain outs s' where p: "p = (outs, s')" by (cases p)
    with Inr ups(3) False have "outs = all_flushed ups" "ups \<noteq> []" by auto
    with False ups(1,2) Inr p show ?thesis
      by (intro exI[of _ ups]) (simp add: flush_def process_async_tasks_def)
  qed
qed

lemma engine_inv_simps [simp]:
  "engine_inv st0 (Inl (e, s)) = abort_inv st0 s"
  "engine_inv st0 (Inr (L, s)) = rolling_inv st0 (L, s)"
  by (simp_all add: engine_inv_def)

lemma evolves_new:
  assumes "evolves P st0 s"
  obtains new where "events s = events st0 @ new"
    "drop (length (events st0)) (events s) = new"
  using evolves_events[OF assms] by auto

lemma rolling_invI:
  assumes "evolves (\<lambda>e. True) st0 s" "events s = events st0 @ new"
    "foldl batch_scan ([], False) new = (task_outputs L, b)"
    "futures L \<noteq> [] \<Longrightarrow> \<not> b" "contexts_ok (task_objs st0) new"
  shows "rolling_inv st0 (L, s)"
  using assms by (auto simp: rolling_inv_def Let_def)

lemma rolling_invE:
  assumes "rolling_inv st0 (L, s)"
  obtains new b where "evolves (\<lambda>e. True) st0 s" "events s = events st0 @ new"
    "foldl batch_scan ([], False) new = (task_outputs L, b)"
    "futures L \<noteq> [] \<longrightarrow> \<not> b" "contexts_ok (task_objs st0) new"
proof -
  from assms have e: "evolves (\<lambda>e. True) st0 s" by (simp add: rolling_inv_def)
  then obtain new where new: "events s = events st0 @ new"
    "drop (length (events st0)) (events s) = new" by (rule evolves_new)
  obtain B b where sc: "foldl batch_scan ([], False) new = (B, b)"
    by (cases "foldl batch_scan ([], False) new")
  from assms new sc have "B = task_outputs L" "futures L \<noteq> [] \<longrightarrow> \<not> b"
    "contexts_ok (task_objs st0) new"
    by (auto simp: rolling_inv_def Let_def)
  with e new sc that show ?thesis by blast
qed

lemma abort_invI:
  assumes "evolves (\<lambda>e. True) st0 s" "events s = events st0 @ new"
    "contexts_ok (task_objs st0) new"
  shows "abort_inv st0 s"
  using assms by (simp add: abort_inv_def)

lemma abort_invE:
  assumes "abort_inv st0 s"
  obtains new where "evolves (\<lambda>e. True) st0 s" "events s = events st0 @ new"
    "contexts_ok (task_objs st0) new"
proof -
  from assms have e: "evolves (\<lambda>e. True) st0 s" by (simp add: abort_inv_def)
  then obtain new where new: "events s = events st0 @ new"
    "drop (length (events st0)) (events s) = new" by (rule evolves_new)
  with assms e that show ?thesis by (simp add: abort_inv_def)
qed

lemma rolling_inv_init: "rolling_inv st (\<lparr>task_outputs = [], futures = []\<rparr>, st)"
  by (rule rolling_invI[where new = "[]" and b = False]) simp_all

lemma evolves_any: "evolves P st st' \<Longrightarrow> evolves (\<lambda>e. True) st st'"
  by (erule evolves_mono) simp

lemma rolling_inv_same_events:
  assumes "rolling_inv st0 (L, s)" "evolves P s s'" "events s' = events s"
  shows "rolling_inv st0 (L, s')"
proof -
  from assms(1) obtain new b where r: "evolves (\<lambda>e. True) st0 s" "events s = events st0 @ new"
    "foldl batch_scan ([], False) new = (task_outputs L, b)"
    "futures L \<noteq> [] \<longrightarrow> \<not> b" "contexts_ok (task_objs st0) new"
    by (rule rolling_invE)
  have "evolves (\<lambda>e. True) st0 s'"
    using r(1) evolves_any[OF assms(2)] by (rule evolves_trans)
  with r assms(3) show ?thesis by (intro rolling_invI[where new = new and b = b]) simp_all
qed

lemma rolling_inv_wire: "rolling_inv st0 (L, s) \<Longrightarrow> rolling_inv st0 (L, wire r m s)"
proof (rule rolling_inv_same_events)
  show "evolves (\<lambda>e. True) s (wire r m s)"
    unfolding wire_def
    by (rule evolves_trans[OF evolves_wire_task_delegation evolves_wire_manager_tools])
qed simp_all

lemma flush_inv:
  assumes "rolling_inv st0 (L, s)"
  shows "engine_inv st0 (flush rep (L, s))"
proof -
  from assms obtain new b where r: "evolves (\<lambda>e. True) st0 s" "events s = events st0 @ new"
    "foldl batch_scan ([], False) new = (task_outputs L, b)"
    "futures L \<noteq> [] \<longrightarrow> \<not> b" "contexts_ok (task_objs st0) new"
    by (rule rolling_invE)
  from flush_trace[of rep L s] obtain ups where
    ups: "events (state_of (flush rep (L, s))) = events s @ ups" "list_all is_update ups"
      "\<forall>L1 s1. flush rep (L, s) = Inr (L1, s1) \<longrightarrow>
        futures L1 = [] \<and>
        (if futures L = [] then L1 = L \<and> ups = []
         else task_outputs L1 = all_flushed ups \<and> ups \<noteq> [])"
    by blast
  have ev: "evolves (\<lambda>e. True) st0 (state_of (flush rep (L, s)))"
    by (rule evolves_trans[OF r(1)]) (rule evolves_flush, simp)
  have ok: "contexts_ok (task_objs st0) (new @ ups)"
    using r(5) ups(2) by (simp add: contexts_ok_append_updates)
  show ?thesis
  proof (cases "flush rep (L, s)")
    case (Inl p)
    obtain e s' where p: "p = (e, s')" by (cases p)
    with Inl ev ups(1) r(2) ok show ?thesis
      by (auto intro!: abort_invI[where new = "new @ ups"])
  next
    case (Inr p)
    obtain L1 s1 where p: "p = (L1, s1)" by (cases p)
    with Inr ups(3) have f1: "futures L1 = []"
      and c: "if futures L = [] then L1 = L \<and> ups = []
         else task_outputs L1 = all_flushed ups \<and> ups \<noteq> []" by auto
    have "\<exists>b'. foldl batch_scan ([], False) (new @ ups) = (task_outputs L1, b')"
    proof (cases "futures L = []")
      case True
      with c r(3) show ?thesis by simp
    next
      case False
      with r(4) have "\<not> b" by simp
      with False c r(3) scan_updates[OF ups(2), of "task_outputs L" b] show ?thesis by auto
    qed
    then obtain b' where "foldl batch_scan ([], False) (new @ ups) = (task_outputs L1, b')" by blast
    with Inr p ev ups(1) r(2) ok f1 show ?thesis
      by (auto intro!: rolling_invI[where new = "new @ ups" and b = b'])
  qed
qed

lemma set_context_no_context:
  assumes "evolves P st0 s" "task_context (task_objs st0 r) = []"
  shows "set_context s r outs = aggregate_raw_outputs_from_task_outputs outs"
  using evolves_tasks(3)[OF assms(1), of r] assms(2) by (simp add: set_context_def)

lemma rolling_exec_event:
  assumes "rolling_inv st0 (L, s)"
    and "e = ExecuteSync i r a (set_context s r (task_outputs L)) tls
       \<or> e = ExecuteAsync i r a (set_context s r (task_outputs L)) tls"
    and "task_outputs L' = task_outputs L"
  shows "rolling_inv st0 (L', s\<lparr>events := events s @ [e]\<rparr>)"
    and "\<exists>new. events s = events st0 @ new \<and>
           foldl batch_scan ([], False) (new @ [e]) = (task_outputs L, False) \<and>
           contexts_ok (task_objs st0) (new @ [e])"
proof -
  from assms(1) obtain new b where r: "evolves (\<lambda>e. True) st0 s" "events s = events st0 @ new"
    "foldl batch_scan ([], False) new = (task_outputs L, b)"
    "futures L \<noteq> [] \<longrightarrow> \<not> b" "contexts_ok (task_objs st0) new"
    by (rule rolling_invE)
  have lb: "last_batch new = task_outputs L" using r(3) by (simp add: last_batch_def)
  have cok: "context_ok (task_objs st0) new e"
    using assms(2) set_context_no_context[OF r(1)] lb by auto
  have sc: "foldl batch_scan ([], False) (new @ [e]) = (task_outputs L, False)"
    using assms(2) r(3) by auto
  have ok: "contexts_ok (task_objs st0) (new @ [e])"
    using r(5) cok by (simp add: contexts_ok_snoc)
  have ev: "evolves (\<lambda>e. True) st0 (s\<lparr>events := events s @ [e]\<rparr>)"
    by (rule evolves_trans[OF r(1)]) (rule evolves_event, simp)
  show "rolling_inv st0 (L', s\<lparr>events := events s @ [e]\<rparr>)"
    using ev r(2) sc ok assms(3)
    by (intro rolling_invI[where new = "new @ [e]" and b = False]) simp_all
  show "\<exists>new. events s = events st0 @ new \<and>
           foldl batch_scan ([], False) (new @ [e]) = (task_outputs L, False) \<and>
           contexts_ok (task_objs st0) (new @ [e])"
    using r(2) sc ok by blast
qed

lemma rolling_inv_abort: "rolling_inv st0 (L, s) \<Longrightarrow> abort_inv st0 s"
  by (erule rolling_invE) (rule abort_invI)

lemma rolling_logged:
  assumes "rolling_inv st0 (L, s)"
    and "events s = pre @ [e]" "executed_at e \<noteq> None"
    and "futures L = []"
  shows "rolling_inv st0 (L\<lparr>task_outputs := [out]\<rparr>, store_execution_log r out i rep (set_output r out s))"
proof -
  from assms(1) obtain new b where r: "evolves (\<lambda>e. True) st0 s" "events s = events st0 @ new"
    "foldl batch_scan ([], False) new = (task_outputs L, b)"
    "futures L \<noteq> [] \<longrightarrow> \<not> b" "contexts_ok (task_objs st0) new"
    by (rule rolling_invE)
  let ?s' = "store_execution_log r out i rep (set_output r out s)"
  let ?u = "UpdateFile i (execution_log (set_output r out s) r out i rep)"
  have nb: "\<not> b"
  proof (cases new rule: rev_cases)
    case Nil
    with r(3) show ?thesis by simp
  next
    case (snoc new' e')
    with r(2) assms(2) have "e' = e" by simp
    with snoc r(3) assms(3) show ?thesis
      by (cases e; cases "foldl batch_scan ([], False) new'") auto
  qed
  have lo: "log_output (execution_log (set_output r out s) r out i rep) = out"
    by (simp add: execution_log_def Let_def)
  have sc: "foldl batch_scan ([], False) (new @ [?u]) = ([out], True)"
    using r(3) nb lo by simp
  have ok: "contexts_ok (task_objs st0) (new @ [?u])"
    using r(5) by (simp add: contexts_ok_snoc)
  have ev: "evolves (\<lambda>e. True) st0 ?s'"
    by (rule evolves_trans[OF r(1)], rule evolves_trans[OF evolves_set_output],
        rule evolves_store_execution_log, simp)
  show ?thesis
    using ev r(2) sc ok assms(4)
    by (intro rolling_invI[where new = "new @ [?u]" and b = True]) simp_all
qed

lemma dispatch_inv:
  assumes "rolling_inv st0 (L, s)"
  shows "engine_inv st0 (dispatch_task exec m (L, s) (i, r))"
proof -
  let ?w = "wire r m s"
  have w: "rolling_inv st0 (L, ?w)" using assms by (rule rolling_inv_wire)
  show ?thesis
  proof (cases "async_execution (task_objs ?w r)")
    case True
    show ?thesis
    proof (cases "agent_to_use ?w r m")
      case None
      with True w show ?thesis by (simp add: dispatch_task_def Let_def)
    next
      case (Some a)
      let ?e = "ExecuteAsync i r (Some a) (set_context ?w r (task_outputs L)) (tools (agent_objs ?w a))"
      let ?L' = "L\<lparr>futures := futures L @
          [(r, exec r (Some a) (set_context ?w r (task_outputs L)) (tools (agent_objs ?w a)), i)]\<rparr>"
      have "rolling_inv st0 (?L', ?w\<lparr>events := events ?w @ [?e]\<rparr>)"
        by (rule rolling_exec_event(1)[OF w]) simp_all
      with True Some show ?thesis
        by (simp add: dispatch_task_def Let_def execute_async_def)
    qed
  next
    case False
    have f: "engine_inv st0 (flush False (L, ?w))" using w by (rule flush_inv)
    show ?thesis
    proof (cases "flush False (L, ?w)")
      case (Inl p)
      obtain e s' where p: "p = (e, s')" by (cases p)
      with f Inl False show ?thesis by (simp add: dispatch_task_def Let_def)
    next
      case (Inr p)
      obtain L1 s1 where p: "p = (L1, s1)" by (cases p)
      with f Inr have r1: "rolling_inv st0 (L1, s1)" by simp
      from Inr p have f1: "futures L1 = []" by (simp add: flush_futures)
      show ?thesis
      proof (cases "agent_to_use s1 r m")
        case None
        with False Inr p r1 show ?thesis by (simp add: dispatch_task_def Let_def)
      next
        case (Some a)
        let ?c = "set_context s1 r (task_outputs L1)"
        let ?t = "tools (agent_objs s1 a)"
        let ?e = "ExecuteSync i r (Some a) ?c ?t"
        let ?s1 = "s1\<lparr>events := events s1 @ [?e]\<rparr>"
        have r2: "rolling_inv st0 (L1, ?s1)"
          by (rule rolling_exec_event(1)[OF r1]) simp_all
        show ?thesis
        proof (cases "exec r (Some a) ?c ?t")
          case (Inl msg)
          with False Inr p Some rolling_inv_abort[OF r2] show ?thesis
            by (simp add: dispatch_task_def Let_def execute_sync_def)
        next
          case xr: (Inr out)
          have "rolling_inv st0 (L1\<lparr>task_outputs := [out]\<rparr>,
                  store_execution_log r out i False (set_output r out ?s1))"
            by (rule rolling_logged[OF r2, where pre = "events s1" and e = ?e]) (simp_all add: f1)
          with False Inr p Some xr show ?thesis
            by (simp add: dispatch_task_def Let_def execute_sync_def)
        qed
      qed
    qed
  qed
qed

lemma for_tasks_engine_inv:
  assumes "\<And>L s x. rolling_inv st0 (L, s) \<Longrightarrow> engine_inv st0 (body (L, s) x)"
    and "rolling_inv st0 (L, s)"
  shows "engine_inv st0 (for_tasks body (L, s) xs)"
  using assms(2)
proof (induction xs arbitrary: L s)
  case Nil
  then show ?case by simp
next
  case (Cons x xs)
  have b: "engine_inv st0 (body (L, s) x)" using Cons.prems by (rule assms(1))
  show ?case
  proof (cases "body (L, s) x")
    case (Inl p)
    with b show ?thesis by simp
  next
    case (Inr p)
    obtain L1 s1 where p: "p = (L1, s1)" by (cases p)
    with b Inr have "rolling_inv st0 (L1, s1)" by simp
    then have "engine_inv st0 (for_tasks body (L1, s1) xs)" by (rule Cons.IH)
    with Inr p show ?thesis by simp
  qed
qed

lemma dispatch_loop_inv: "engine_inv st (dispatch_loop exec ts m st)"
proof -
  let ?loop = "for_tasks (dispatch_task exec m) (\<lparr>task_outputs = [], futures = []\<rparr>, st) (enumerate 0 ts)"
  have l: "engine_inv st ?loop"
  proof (rule for_tasks_engine_inv)
    show "engine_inv st (dispatch_task exec m (L, s) x)" if "rolling_inv st (L, s)" for L s x
      using that by (cases x) (simp add: dispatch_inv)
    show "rolling_inv st (\<lparr>task_outputs = [], futures = []\<rparr>, st)" by (rule rolling_inv_init)
  qed
  show ?thesis
  proof (cases ?loop)
    case (Inl p)
    with l show ?thesis by (simp add: dispatch_loop_def)
  next
    case (Inr p)
    obtain L1 s1 where p: "p = (L1, s1)" by (cases p)
    with l Inr have "rolling_inv st (L1, s1)" by simp
    then have "engine_inv st (flush False (L1, s1))" by (rule flush_inv)
    with Inr p show ?thesis by (simp add: dispatch_loop_def)
  qed
qed

lemma evolves_finish_execution: "evolves (\<lambda>e. executed_at e = None) st (finish_execution x st)"
  by (simp add: evolves_def finish_execution_def Let_def)

lemma abort_inv_finish:
  assumes "abort_inv st0 s"
  shows "abort_inv st0 (finish_execution x s)"
proof -
  from assms obtain new where r: "evolves (\<lambda>e. True) st0 s" "events s = events st0 @ new"
    "contexts_ok (task_objs st0) new"
    by (rule abort_invE)
  from evolves_events[OF evolves_finish_execution[of s x]] obtain fin where
    fin: "events (finish_execution x s) = events s @ fin" "list_all (\<lambda>e. executed_at e = None) fin"
    by blast
  have "evolves (\<lambda>e. True) st0 (finish_execution x s)"
    by (rule evolves_trans[OF r(1)]) (rule evolves_any[OF evolves_finish_execution])
  moreover have "contexts_ok (task_objs st0) (new @ fin)"
    using r(3) fin(2) by (simp add: contexts_ok_append_other)
  ultimately show ?thesis
    using r(2) fin(1) by (intro abort_invI[where new = "new @ fin"]) simp_all
qed

lemma execute_tasks_inv: "abort_inv st (state_of (execute_tasks exec ts m st))"
proof (cases "dispatch_loop exec ts m st")
  case (Inl p)
  obtain e s where p: "p = (e, s)" by (cases p)
  with Inl dispatch_loop_inv[of st exec ts m] show ?thesis by (simp add: execute_tasks_def)
next
  case (Inr p)
  obtain L s where p: "p = (L, s)" by (cases p)
  with Inr dispatch_loop_inv[of st exec ts m] have "rolling_inv st (L, s)" by simp
  then have a: "abort_inv st s" by (rule rolling_inv_abort)
  show ?thesis
  proof (cases "task_outputs L")
    case Nil
    with Inr p a show ?thesis by (simp add: execute_tasks_def)
  next
    case (Cons final rest)
    with Inr p abort_inv_finish[OF a] show ?thesis by (simp add: execute_tasks_def Let_def)
  qed
qed


lemma three_sync_events:
  "events (state_of (execute_tasks echo [0, 1, 2] None (plain_state (plain_crew [0, 1, 2]) plain_tasks))) =
     [ExecuteSync 0 0 (Some 0) [] [],
      UpdateFile 0 \<lparr>log_task_id = ''t'', log_expected_output = ''e'', log_output = answer ''a'',
        task_index = 0, log_inputs = Some [], was_replayed = False\<rparr>,
      ExecuteSync 1 1 (Some 0) ''a'' [],
      UpdateFile 1 \<lparr>log_task_id = ''t'', log_expected_output = ''e'', log_output = answer ''b'',
        task_index = 1, log_inputs = Some [], was_replayed = False\<rparr>,
      ExecuteSync 2 2 (Some 0) ''b'' [],
      UpdateFile 2 \<lparr>log_task_id = ''t'', log_expected_output = ''e'', log_output = answer ''c'',
        task_index = 2, log_inputs = Some [], was_replayed = False\<rparr>,
      EndCrew ''c'']"
  by (simp add: run_defs example_defs)


section \<open>Frames and replay\<close>

lemma frame_refl [simp]: "frame R A st st"
  by (simp add: frame_def)

lemma frame_trans: "frame R A st st1 \<Longrightarrow> frame R A st1 st2 \<Longrightarrow> frame R A st st2"
  by (simp add: frame_def)

lemma frame_mono: "frame R A st st' \<Longrightarrow> R \<subseteq> R' \<Longrightarrow> A \<subseteq> A' \<Longrightarrow> frame R' A' st st'"
  by (auto simp: frame_def)

lemma frame_set_output: "frame {r} {} st (set_output r out st)"
  by (simp add: frame_def set_output_def)

lemma frame_set_tools: "frame {} {a} st (set_tools a tls st)"
  by (simp add: frame_def set_tools_def)

lemma frame_store_execution_log: "frame {} {} st (store_execution_log r out i rep st)"
  by (simp add: frame_def)

lemma frame_event: "frame {} {} st (st\<lparr>events := evs\<rparr>)"
  by (simp add: frame_def)

lemma frame_wire_task_delegation: "frame {r} {} st (wire_task_delegation r st)"
  by (simp add: frame_def wire_task_delegation_def Let_def split: option.splits)

lemma frame_wire_manager_tools: "frame {} (set_option m) st (wire_manager_tools r m st)"
  by (auto simp: frame_def wire_manager_tools_def Let_def set_tools_def split: option.splits)

lemma frame_wire: "frame {r} (set_option m) st (wire r m st)"
  unfolding wire_def
  by (rule frame_trans[OF frame_mono[OF frame_wire_task_delegation] frame_mono[OF frame_wire_manager_tools]])
     auto

lemma frame_resolve_futures:
  "frame (fst ` set fs) {} st (state_of (resolve_futures fs rep acc st))"
proof (induction fs arbitrary: acc st)
  case Nil
  then show ?case by simp
next
  case (Cons f fs)
  obtain r res i where f: "f = (r, res, i)" by (cases f)
  show ?case
  proof (cases res)
    case (Inl msg)
    with f show ?thesis by simp
  next
    case (Inr out)
    let ?s1 = "store_execution_log r out i rep (set_output r out st)"
    have "frame {r} {} st ?s1"
      by (rule frame_trans[OF frame_set_output frame_mono[OF frame_store_execution_log]]) auto
    then have "frame (fst ` set (f # fs)) {} st ?s1"
      by (rule frame_mono) (auto simp: f)
    moreover have "frame (fst ` set (f # fs)) {} ?s1 (state_of (resolve_futures fs rep (acc @ [out]) ?s1))"
      by (rule frame_mono[OF Cons.IH]) auto
    ultimately show ?thesis using f Inr by (simp add: frame_trans)
  qed
qed

lemma frame_flush: "frame (fst ` set (futures L)) {} st (state_of (flush rep (L, st)))"
  using frame_resolve_futures[of "futures L" st rep "[]"]
  by (auto simp: flush_def process_async_tasks_def split: sum.splits)

lemma frame_execute_sync: "frame {r} {} st (state_of (execute_sync exec i r a c tls st))"
  unfolding execute_sync_def Let_def
  by (auto simp: frame_def set_output_def split: sum.splits)

lemma frame_dispatch_task:
  "frame (insert r (fst ` set (futures L))) (set_option m) st
     (state_of (dispatch_task exec m (L, st) (i, r)))"
  (is "frame ?R ?A st _")
proof -
  let ?w = "wire r m st"
  have w: "frame ?R ?A st ?w" by (rule frame_mono[OF frame_wire]) auto
  show ?thesis
  proof (cases "async_execution (task_objs ?w r)")
    case True
    have "frame ?R ?A st (?w\<lparr>events := evs\<rparr>)" for evs
      by (rule frame_trans[OF w frame_mono[OF frame_event]]) auto
    with True w show ?thesis
      by (auto simp: dispatch_task_def Let_def execute_async_def split: option.splits)
  next
    case False
    have f: "frame ?R ?A st (state_of (flush False (L, ?w)))"
      by (rule frame_trans[OF w frame_mono[OF frame_flush]]) auto
    show ?thesis
    proof (cases "flush False (L, ?w)")
      case (Inl p)
      with f False show ?thesis by (cases p) (simp add: dispatch_task_def Let_def)
    next
      case (Inr p)
      obtain L1 s1 where p: "p = (L1, s1)" by (cases p)
      with f Inr have f1: "frame ?R ?A st s1" by simp
      show ?thesis
      proof (cases "agent_to_use s1 r m")
        case None
        with False Inr p f1 show ?thesis by (simp add: dispatch_task_def Let_def)
      next
        case (Some a)
        let ?x = "execute_sync exec i r (Some a) (set_context s1 r (task_outputs L1))
                    (tools (agent_objs s1 a)) s1"
        have x: "frame ?R ?A st (state_of ?x)"
          by (rule frame_trans[OF f1 frame_mono[OF frame_execute_sync]]) auto
        show ?thesis
        proof (cases ?x)
          case (Inl q)
          with x False Inr p Some show ?thesis by (cases q) (simp add: dispatch_task_def Let_def)
        next
          case xr: (Inr q)
          obtain out s2 where q: "q = (out, s2)" by (cases q)
          with x xr have "frame ?R ?A st s2" by simp
          then have "frame ?R ?A st (store_execution_log r out i False s2)"
            by (rule frame_trans) (rule frame_mono[OF frame_store_execution_log], auto)
          with False Inr p Some xr q show ?thesis by (simp add: dispatch_task_def Let_def)
        qed
      qed
    qed
  qed
qed

lemma futures_dispatch_task:
  "dispatch_task exec m (L, st) (i, r) = Inr (L', st') \<Longrightarrow>
     fst ` set (futures L') \<subseteq> insert r (fst ` set (futures L))"
  by (auto simp: dispatch_task_def Let_def execute_async_def flush_def
      split: if_splits option.splits sum.splits prod.splits)
























section \<open>The rate limiter\<close>

lemma foldl_prepare_agent_events [simp]:
  "events (foldl prepare_agent st as) = events st"
  by (induction as arbitrary: st) (simp_all add: prepare_agent_def set_tools_def)

lemma kickoff_prepare_facts:
  "stop_count (events (kickoff_prepare ins st)) = stop_count (events st)"
  "max_rpm (this (kickoff_prepare ins st)) = max_rpm (this st)"
  by (simp_all add: kickoff_prepare_def Let_def stop_count_def split: option.splits)

lemma kickoff_cases:
  "(\<exists>e. kickoff exec ins st = Inl (e, state_of (run_process exec (kickoff_prepare ins st)))
        \<and> (isl (run_process exec (kickoff_prepare ins st))
             \<longrightarrow> run_process exec (kickoff_prepare ins st)
                   = Inl (e, state_of (run_process exec (kickoff_prepare ins st))))
        \<and> (\<not> isl (run_process exec (kickoff_prepare ins st))
             \<longrightarrow> e = AttributeError \<or> e = IndexError))
   \<or> (\<not> isl (run_process exec (kickoff_prepare ins st))
       \<and> (\<exists>x c. kickoff exec ins st
             = Inr (x, (state_of (run_process exec (kickoff_prepare ins st)))\<lparr>this := c\<rparr>)))"
  by (auto simp: kickoff_def kickoff_prepare_def Let_def split: sum.splits)

text \<open>
  Claim C8, amended.  For every run, sequential or hierarchical, the rate limiter's stop
  operation is invoked exactly once if the task loop runs to its end, so that the final
  result is built, and the crew has a non-zero \<^verbatim>\<open>max_rpm\<close>; otherwise it is not invoked:
  not when the run aborts with a fatal agent-invocation failure, and not when
  \<^verbatim>\<open>max_rpm\<close> is unset.  A \<^verbatim>\<open>kickoff\<close> that returns has run its task loop to the
  end.  A \<^verbatim>\<open>kickoff\<close> can still raise after the stop, when it sums the usage of the
  agents.
\<close>

theorem rate_limiter_stop:
  "stop_count (events (state_of (run_process exec st))) =
     stop_count (events st)
       + (if \<not> isl (run_process exec st) \<and> truthy (max_rpm (this st)) then 1 else 0)
   \<and> stop_count (events (state_of (kickoff exec ins st))) =
       stop_count (events st)
         + (if \<not> isl (run_process exec (kickoff_prepare ins st)) \<and> truthy (max_rpm (this st))
            then 1 else 0)
   \<and> (\<not> isl (kickoff exec ins st) \<longrightarrow> \<not> isl (run_process exec (kickoff_prepare ins st)))
   \<and> (\<forall>msg s. kickoff exec ins st = Inl (AgentError msg, s)
         \<longrightarrow> stop_count (events s) = stop_count (events st))"
proof -
  let ?p = "kickoff_prepare ins st"
  note r = run_process_stop_count[of exec ?p]
  note k = kickoff_cases[of exec ins st]
  have ev: "events (state_of (kickoff exec ins st)) = events (state_of (run_process exec ?p))"
    using k by auto
  have 2: "stop_count (events (state_of (kickoff exec ins st))) =
       stop_count (events st)
         + (if \<not> isl (run_process exec ?p) \<and> truthy (max_rpm (this st)) then 1 else 0)"
    unfolding ev using r by (simp add: kickoff_prepare_facts)
  have 3: "\<not> isl (kickoff exec ins st) \<longrightarrow> \<not> isl (run_process exec ?p)"
    using k by auto
  have 4: "stop_count (events s) = stop_count (events st)"
    if a: "kickoff exec ins st = Inl (AgentError msg, s)" for msg s
  proof -
    from k a have "isl (run_process exec ?p)" by auto
    moreover from a have "state_of (kickoff exec ins st) = s" by simp
    ultimately show ?thesis using 2 by simp
  qed
  from run_process_stop_count[of exec st] 2 3 4 show ?thesis by blast
qed


text \<open>
  The theorem on the crew with \<^verbatim>\<open>max_rpm\<close> 10: a run that returns, a run that raises
  \<^verbatim>\<open>IndexError\<close> after its task loop, for a crew that lists no agents, and a run whose
  agent fails.
\<close>

theorem rate_limiter_stop_witness:
  "\<not> isl (kickoff echo None (plain_state limited_crew plain_tasks))
   \<and> stop_count (events (state_of (kickoff echo None (plain_state limited_crew plain_tasks)))) = 1
   \<and> kickoff echo None (plain_state no_roster plain_tasks)
       = Inl (IndexError, state_of (kickoff echo None (plain_state no_roster plain_tasks)))
   \<and> stop_count (events (state_of (kickoff echo None (plain_state no_roster plain_tasks)))) = 1
   \<and> isl (kickoff failing None (plain_state limited_crew plain_tasks))
   \<and> stop_count (events (state_of (kickoff failing None (plain_state limited_crew plain_tasks)))) = 0"
proof -
  let ?a = "plain_state limited_crew plain_tasks"
  let ?b = "plain_state no_roster plain_tasks"
  note a = rate_limiter_stop[of echo ?a None]
  note b = rate_limiter_stop[of echo ?b None]
  note c = rate_limiter_stop[of failing ?a None]
  have ok: "\<not> isl (kickoff echo None ?a)" by (simp add: run_defs example_defs)
  with a have ra: "\<not> isl (run_process echo (kickoff_prepare None ?a))" by blast
  have t: "truthy (max_rpm (this ?a))" "truthy (max_rpm (this ?b))" "stop_count (events ?a) = 0"
    "stop_count (events ?b) = 0"
    by (simp_all add: example_defs truthy_def)
  from a ra t have 1: "stop_count (events (state_of (kickoff echo None ?a))) = 1" by simp
  have rb: "\<not> isl (run_process echo (kickoff_prepare None ?b))"
    by (simp add: run_defs kickoff_prepare_def example_defs)
  from b rb t have 2: "stop_count (events (state_of (kickoff echo None ?b))) = 1" by simp
  have ib: "kickoff echo None ?b = Inl (IndexError, state_of (kickoff echo None ?b))"
    by (simp add: run_defs example_defs map_filter_def)
  have fc: "kickoff failing None ?a = Inl (AgentError ''boom'', state_of (kickoff failing None ?a))"
    by (simp add: run_defs example_defs)
  with c t have 3: "stop_count (events (state_of (kickoff failing None ?a))) = 0" by metis
  from fc have "isl (kickoff failing None ?a)" by (metis isl_def)
  with ok 1 2 ib 3 show ?thesis by blast
qed

text \<open>
  Claim C8 as stated fails: with \<^verbatim>\<open>max_rpm\<close> set to 10 and an agent that fails, the
  run aborts and the stop operation has not been invoked.
\<close>

theorem rate_limiter_stop_counterexample:
  "isl (run_process failing (plain_state limited_crew plain_tasks))
   \<and> max_rpm limited_crew = Some 10
   \<and> stop_count (events (state_of (run_process failing (plain_state limited_crew plain_tasks)))) = 0"
  by (simp add: run_defs example_defs stop_count_def)

section \<open>The rolling result list\<close>



section \<open>The flush barrier\<close>

text \<open>
  Claim C4.  For the task list [A, B, C] with A and B asynchronous and C synchronous
  without explicit context, all three with an agent that succeeds: A and B are dispatched,
  then A's and B's results are written to the checkpoint log at positions 0 and 1, in that
  order, then C is executed with the concatenation of A's and B's raw outputs as context,
  and only then C's entry is written, at position 2.
\<close>

theorem flush_barrier:
  assumes t: "tasks (this st) = [a, b, c]"
    and aa: "async_execution (task_objs st a)"
    and ab: "async_execution (task_objs st b)"
    and sc: "\<not> async_execution (task_objs st c)"
    and ga: "agent (task_objs st a) = Some ga"
    and gb: "agent (task_objs st b) = Some gb"
    and gc: "agent (task_objs st c) = Some gc"
    and nc: "task_context (task_objs st c) = []"
    and ok: "\<forall>r g ctx tls. \<not> isl (exec r g ctx tls)"
  shows "\<exists>ca cb ta tb tc oa ob oc la lb lc fin.
      exec a (Some ga) ca ta = Inr oa \<and> exec b (Some gb) cb tb = Inr ob \<and>
      exec c (Some gc) (raw oa @ raw ob) tc = Inr oc \<and>
      log_output la = oa \<and> log_output lb = ob \<and> log_output lc = oc \<and>
      events (state_of (run_sequential_process exec st)) = events st @
        [ExecuteAsync 0 a (Some ga) ca ta, ExecuteAsync 1 b (Some gb) cb tb,
         UpdateFile 0 la, UpdateFile 1 lb,
         ExecuteSync 2 c (Some gc) (raw oa @ raw ob) tc, UpdateFile 2 lc] @ fin \<and>
      execution_logs (this (state_of (run_sequential_process exec st))) = [la, lb, lc] \<and>
      output_file (state_of (run_sequential_process exec st)) =
        overwrite_or_append 2 lc (overwrite_or_append 1 lb (overwrite_or_append 0 la (output_file st)))"
proof -
  define s0 where "s0 = st\<lparr>this := (this st)\<lparr>execution_logs := []\<rparr>\<rparr>"
  define L0 where "L0 = \<lparr>task_outputs = [], futures = []\<rparr>"
  \<comment> \<open>task A\<close>
  define ca where "ca = set_context s0 a (task_outputs L0)"
  define ta where "ta = tools (agent_objs (wire a None s0) ga)"
  obtain oa where oa: "exec a (Some ga) ca ta = Inr oa" using ok by (rule exec_succeeds)
  define sa where "sa = (wire a None s0)\<lparr>events := events s0 @ [ExecuteAsync 0 a (Some ga) ca ta]\<rparr>"
  define La where "La = L0\<lparr>futures := [(a, Inr oa, 0)]\<rparr>"
  have stepa: "dispatch_task exec None (L0, s0) (0, a) = Inr (La, sa)"
    using dispatch_async_eq[of s0 a ga exec None L0 0] aa ga oa
    by (simp add: s0_def La_def sa_def ca_def ta_def L0_def)
  \<comment> \<open>task B\<close>
  define cb where "cb = set_context sa b (task_outputs La)"
  define tb where "tb = tools (agent_objs (wire b None sa) gb)"
  obtain ob where ob: "exec b (Some gb) cb tb = Inr ob" using ok by (rule exec_succeeds)
  define sb where "sb = (wire b None sa)\<lparr>events := events sa @ [ExecuteAsync 1 b (Some gb) cb tb]\<rparr>"
  define Lb where "Lb = La\<lparr>futures := [(a, Inr oa, 0), (b, Inr ob, 1)]\<rparr>"
  have stepb: "dispatch_task exec None (La, sa) (1, b) = Inr (Lb, sb)"
    using dispatch_async_eq[of sa b gb exec None La 1] ab gb ob
    by (simp add: s0_def La_def Lb_def sa_def sb_def cb_def tb_def)
  \<comment> \<open>task C: the barrier\<close>
  define s1 where "s1 = set_output a oa (wire c None sb)"
  define la where "la = execution_log s1 a oa 0 False"
  define s2 where "s2 = set_output b ob (store_execution_log a oa 0 False s1)"
  define lb where "lb = execution_log s2 b ob 1 False"
  define s3 where "s3 = store_execution_log b ob 1 False s2"
  define L1 where "L1 = \<lparr>task_outputs = [oa, ob], futures = []\<rparr>"
  have fl: "flush False (Lb, wire c None sb) = Inr (L1, s3)"
    using flush_two[of Lb a oa 0 b ob 1 False "wire c None sb"]
    by (simp add: Lb_def L1_def s1_def s2_def s3_def)
  have ctx: "set_context s3 c (task_outputs L1) = raw oa @ raw ob"
    using nc
    by (simp add: set_context_def s3_def s2_def s1_def sb_def sa_def s0_def L1_def
        aggregate_raw_outputs_from_task_outputs_def)
  define tc where "tc = tools (agent_objs s3 gc)"
  obtain oc where oc: "exec c (Some gc) (raw oa @ raw ob) tc = Inr oc"
    using ok by (rule exec_succeeds)
  define s4 where "s4 = set_output c oc
      (s3\<lparr>events := events s3 @ [ExecuteSync 2 c (Some gc) (raw oa @ raw ob) tc]\<rparr>)"
  define lc where "lc = execution_log s4 c oc 2 False"
  define s5 where "s5 = store_execution_log c oc 2 False s4"
  define Lc where "Lc = L1\<lparr>task_outputs := [oc]\<rparr>"
  have stepc: "dispatch_task exec None (Lb, sb) (2, c) = Inr (Lc, s5)"
    using dispatch_sync_eq[of sb c gc Lb None L1 s3 exec oc 2] sc gc fl oc ctx
    by (simp add: sb_def sa_def s0_def tc_def s4_def s5_def Lc_def)
  \<comment> \<open>the whole loop\<close>
  have en: "enumerate 0 [a, b, c] = [(0, a), (1, b), (2, c)]"
    by (simp add: numeral_2_eq_2)
  have "for_tasks (dispatch_task exec None) (L0, s0) [(0, a), (1, b), (2, c)] = Inr (Lc, s5)"
    using stepa stepb stepc by simp
  then have loop: "dispatch_loop exec [a, b, c] None s0 = Inr (Lc, s5)"
    unfolding dispatch_loop_def en L0_def[symmetric]
    by (simp add: flush_def Lc_def L1_def)
  define s6 where "s6 = finish_execution (raw oc) s5"
  have run: "run_sequential_process exec st = Inr (crew_result oc s6, s6)"
    using loop t
    by (simp add: run_sequential_process_def Let_def s0_def execute_tasks_def Lc_def s6_def)
  obtain fin where fin: "events s6 = events s5 @ fin"
    unfolding s6_def using finish_execution_events by blast
  have ev: "events s5 = events st @
        [ExecuteAsync 0 a (Some ga) ca ta, ExecuteAsync 1 b (Some gb) cb tb,
         UpdateFile 0 la, UpdateFile 1 lb,
         ExecuteSync 2 c (Some gc) (raw oa @ raw ob) tc, UpdateFile 2 lc]"
    by (simp add: s5_def s4_def s3_def s2_def s1_def sb_def sa_def s0_def la_def lb_def lc_def)
  have logs: "execution_logs (this s6) = [la, lb, lc]"
    by (simp add: s6_def s5_def s4_def s3_def s2_def s1_def sb_def sa_def s0_def la_def lb_def lc_def
        overwrite_or_append_def)
  have fil: "output_file s6 =
        overwrite_or_append 2 lc (overwrite_or_append 1 lb (overwrite_or_append 0 la (output_file st)))"
    by (simp add: s6_def s5_def s4_def s3_def s2_def s1_def sb_def sa_def s0_def la_def lb_def lc_def)
  have outs: "log_output la = oa" "log_output lb = ob" "log_output lc = oc"
    by (simp_all add: la_def lb_def lc_def execution_log_def Let_def)
  show ?thesis
    apply (rule exI[of _ ca], rule exI[of _ cb], rule exI[of _ ta], rule exI[of _ tb],
        rule exI[of _ tc], rule exI[of _ oa], rule exI[of _ ob], rule exI[of _ oc],
        rule exI[of _ la], rule exI[of _ lb], rule exI[of _ lc], rule exI[of _ fin])
    using oa ob oc outs run fin ev logs fil by simp
qed

text \<open>
  The theorem on three tasks whose agent answers \<open>a\<close>, \<open>b\<close> and \<open>c\<close>: the third task
  is given \<open>ab\<close>.
\<close>

theorem flush_barrier_witness:
  "\<exists>ca cb ta tb tc la lb lc fin.
      events (state_of (run_sequential_process echo
                (plain_state (plain_crew [0, 1, 2]) two_async))) =
        [ExecuteAsync 0 0 (Some 0) ca ta, ExecuteAsync 1 1 (Some 0) cb tb,
         UpdateFile 0 la, UpdateFile 1 lb,
         ExecuteSync 2 2 (Some 0) ''ab'' tc, UpdateFile 2 lc] @ fin \<and>
      raw (log_output la) = ''a'' \<and> raw (log_output lb) = ''b'' \<and>
      execution_logs (this (state_of (run_sequential_process echo
                (plain_state (plain_crew [0, 1, 2]) two_async)))) = [la, lb, lc]"
proof -
  let ?st = "plain_state (plain_crew [0, 1, 2]) two_async"
  have h: "tasks (this ?st) = [0, 1, 2]"
    "async_execution (task_objs ?st 0)" "async_execution (task_objs ?st 1)"
    "\<not> async_execution (task_objs ?st 2)"
    "agent (task_objs ?st 0) = Some 0" "agent (task_objs ?st 1) = Some 0"
    "agent (task_objs ?st 2) = Some 0" "task_context (task_objs ?st 2) = []"
    "\<forall>r g ctx tls. \<not> isl (echo r g ctx tls)"
    by (simp_all add: example_defs two_async_def)
  from flush_barrier[OF h] obtain ca cb ta tb tc oa ob oc la lb lc fin where
    r: "echo 0 (Some 0) ca ta = Inr oa" "echo 1 (Some 0) cb tb = Inr ob"
      "log_output la = oa" "log_output lb = ob"
      "events (state_of (run_sequential_process echo ?st)) = events ?st @
        [ExecuteAsync 0 0 (Some 0) ca ta, ExecuteAsync 1 1 (Some 0) cb tb,
         UpdateFile 0 la, UpdateFile 1 lb,
         ExecuteSync 2 2 (Some 0) (raw oa @ raw ob) tc, UpdateFile 2 lc] @ fin"
      "execution_logs (this (state_of (run_sequential_process echo ?st))) = [la, lb, lc]"
    by blast
  from r(1,2) have "raw oa = ''a''" "raw ob = ''b''"
    by (auto simp: echo_def answer_def)
  moreover have "events ?st = []" by (simp add: plain_state_def)
  ultimately show ?thesis using r(3-6) by auto
qed

section \<open>The context of a task without explicit dependencies\<close>

text \<open>
  Claim C1, as amended.  For every task that declares no explicit context dependencies, the
  context string passed to its agent is the concatenation of the raw outputs of the results
  of the most recent batch of checkpoint writes only, in the order they were written: the
  single result of the latest synchronous task, or the results flushed together at the
  latest barrier.  Results flushed before that batch are not part of it.
\<close>

theorem context_is_last_batch:
  assumes "events (state_of (execute_tasks exec ts m st)) = events st @ pre @ e # post"
    and "e = ExecuteSync i r a c tls \<or> e = ExecuteAsync i r a c tls"
    and "task_context (task_objs st r) = []"
  shows "c = aggregate_raw_outputs_from_task_outputs (last_batch pre)"
proof -
  from execute_tasks_inv[of st exec ts m] obtain new where
    new: "events (state_of (execute_tasks exec ts m st)) = events st @ new"
      "contexts_ok (task_objs st) new"
    by (rule abort_invE)
  from new(1) assms(1) have n: "new = pre @ e # post" by simp
  then have "length pre < length new" by simp
  with new(2) have "context_ok (task_objs st) (take (length pre) new) (new ! length pre)"
    unfolding contexts_ok_def by blast
  with n have "context_ok (task_objs st) pre e" by simp
  with assms(2,3) show ?thesis by auto
qed

text \<open>
  The theorem on three synchronous tasks whose agent answers \<open>a\<close>, \<open>b\<close> and \<open>c\<close>, at
  the call for the third task.
\<close>

theorem context_is_last_batch_witness:
  "''b'' = aggregate_raw_outputs_from_task_outputs (last_batch (take 4
      (events (state_of (execute_tasks echo [0, 1, 2] None
         (plain_state (plain_crew [0, 1, 2]) plain_tasks))))))"
proof -
  let ?st = "plain_state (plain_crew [0, 1, 2]) plain_tasks"
  let ?E = "events (state_of (execute_tasks echo [0, 1, 2] None ?st))"
  have 1: "?E = events ?st @ take 4 ?E @ ExecuteSync 2 2 (Some 0) ''b'' [] # drop 5 ?E"
    unfolding three_sync_events by (simp add: plain_state_def)
  have 2: "ExecuteSync 2 2 (Some 0) ''b'' [] = ExecuteSync 2 2 (Some 0) ''b'' []
      \<or> ExecuteSync 2 2 (Some 0) ''b'' [] = ExecuteAsync 2 2 (Some 0) ''b'' []" by simp
  have 3: "task_context (task_objs ?st 2) = []" by (simp add: example_defs)
  show ?thesis by (rule context_is_last_batch[OF 1 2 3])
qed

text \<open>
  Claim C1 as stated fails there: the third task, which declares no context, is given
  \<open>b\<close>, while the results flushed so far concatenate to \<open>ab\<close>.
\<close>

theorem context_is_last_batch_counterexample:
  "events (state_of (execute_tasks echo [0, 1, 2] None
       (plain_state (plain_crew [0, 1, 2]) plain_tasks))) ! 4 = ExecuteSync 2 2 (Some 0) ''b'' []
   \<and> task_context (task_objs (plain_state (plain_crew [0, 1, 2]) plain_tasks) 2) = []
   \<and> aggregate_raw_outputs_from_task_outputs (all_flushed (take 4
        (events (state_of (execute_tasks echo [0, 1, 2] None
           (plain_state (plain_crew [0, 1, 2]) plain_tasks)))))) = ''ab''"
  unfolding three_sync_events
  by (simp add: example_defs all_flushed_def map_filter_def
      aggregate_raw_outputs_from_task_outputs_def)

section \<open>Replay from a task\<close>




section \<open>The manager's tools\<close>

lemmas validation_defs =
  Crew_init_def and_then_def check_manager_llm_def check_config_def
  validate_tasks_def check_tasks_in_hierarchical_process_not_async_def
  validate_end_with_at_most_one_async_task_def
  validate_async_task_cannot_include_sequential_async_tasks_in_context_def
  validate_context_no_future_tasks_def returning_def task_indices_def

lemma wire_manager_tools_roster:
  "process (this st) = hierarchical \<Longrightarrow>
     tools (agent_objs (wire r (Some m) st) m) = get_delegation_tools (agents (this st))"
  by (simp add: wire_def wire_manager_tools_def Let_def split: option.splits)

text \<open>
  Claim C2, on the code.  The crew below passes validation; its only task is assigned to
  agent 2, which is not in the roster [1].  The loop body first gives the manager the
  delegation tools for the task's agent and then replaces them by the delegation tools for
  the roster, so when the task is dispatched the manager's tools are those for agent 1
  only: the capability to delegate to the task's own agent is gone.
\<close>

theorem manager_tools_overwritten:
  "Crew_init outsider_tasks hier_crew = Inr hier_crew
   \<and> agent (task_objs hier_state 0) = Some 2
   \<and> tools (agent_objs (wire 0 (Some 9) hier_state) 9) = [DelegateTo 1]
   \<and> events (state_of (run_process echo hier_state))
        = [ExecuteSync 0 0 (Some 2) [] [],
           UpdateFile 0 \<lparr>log_task_id = ''t'', log_expected_output = ''e'',
             log_output = answer ''a'', task_index = 0, log_inputs = Some [],
             was_replayed = False\<rparr>,
           EndCrew ''a'']
   \<and> tools (agent_objs (state_of (run_process echo hier_state)) 9) = [DelegateTo 1]"
  by (simp add: validation_defs run_defs example_defs)

section \<open>Usage totals\<close>

text \<open>
  \<^verbatim>\<open>calculate_usage_metrics\<close>, from which the \<^verbatim>\<open>token_usage\<close> of the result is taken,
  sums every counter over the worker agents and the manager.
\<close>

lemma foldl_usage:
  assumes "\<And>u v. field (add_usage u v) = field u + field v"
  shows "field (foldl (\<lambda>total a. case token_process (agent_objs st a) of
                               Some token_sum \<Rightarrow> add_usage total token_sum
                             | None \<Rightarrow> total) u as)
         = field u + sum_list (map (counted field st) as)"
  by (induction as arbitrary: u) (auto simp: assms counted_def split: option.splits)

lemma calculate_usage_metrics_field:
  assumes "\<And>u v. field (add_usage u v) = field u + field v" "field zero_usage = 0"
  shows "field (calculate_usage_metrics st) =
     sum_list (map (counted field st) (agents (this st)))
       + (case manager_agent (this st) of Some m \<Rightarrow> counted field st m | None \<Rightarrow> 0)"
  unfolding calculate_usage_metrics_def Let_def
  by (auto simp: foldl_usage[OF assms(1)] assms counted_def split: option.splits)

lemma calculate_usage_metrics_sums:
  "total_tokens (calculate_usage_metrics st) =
     sum_list (map (counted total_tokens st) (agents (this st)))
       + (case manager_agent (this st) of Some m \<Rightarrow> counted total_tokens st m | None \<Rightarrow> 0)"
  "prompt_tokens (calculate_usage_metrics st) =
     sum_list (map (counted prompt_tokens st) (agents (this st)))
       + (case manager_agent (this st) of Some m \<Rightarrow> counted prompt_tokens st m | None \<Rightarrow> 0)"
  "completion_tokens (calculate_usage_metrics st) =
     sum_list (map (counted completion_tokens st) (agents (this st)))
       + (case manager_agent (this st) of Some m \<Rightarrow> counted completion_tokens st m | None \<Rightarrow> 0)"
  "successful_requests (calculate_usage_metrics st) =
     sum_list (map (counted successful_requests st) (agents (this st)))
       + (case manager_agent (this st) of Some m \<Rightarrow> counted successful_requests st m | None \<Rightarrow> 0)"
  by (rule calculate_usage_metrics_field; simp add: add_usage_def zero_usage_def)+

text \<open>
  Claim C7, on the code.  The same crew: the worker and the manager have used 3 tokens
  each.  The \<^verbatim>\<open>token_usage\<close> of the result counts 6, but the \<^verbatim>\<open>usage_metrics\<close> that
  \<^verbatim>\<open>kickoff\<close> stores on the crew counts the worker agents only, 3.
\<close>

theorem kickoff_usage_without_manager:
  "Crew_init outsider_tasks hier_crew = Inr hier_crew
   \<and> agents hier_crew = [1] \<and> manager_agent hier_crew = Some 9
   \<and> map_option total_tokens (token_process (agent_objs hier_state 1)) = Some 3
   \<and> map_option total_tokens (token_process (agent_objs hier_state 9)) = Some 3
   \<and> \<not> isl (kickoff echo None hier_state)
   \<and> total_tokens (token_usage (fst (projr (kickoff echo None hier_state)))) = 6
   \<and> map_option total_tokens (usage_metrics (this (state_of (kickoff echo None hier_state))))
        = Some 3"
  by (simp add: validation_defs run_defs example_defs map_filter_def add_usage_def zero_usage_def)

end
